theory Spec2Isabelle
  imports Main "HOL-Library.Word"
begin

unbundle bit_operations_syntax

section \<open>Machine types and the read contract\<close>

text \<open>
  The embedding follows \<^verbatim>\<open>Memory.cpp\<close> for an LP64 target: \<^verbatim>\<open>uint64_t\<close>,
  \<^verbatim>\<open>size_t\<close>, \<^verbatim>\<open>uintptr_t\<close> and \<^verbatim>\<open>long\<close> are all 64 bits wide, so one word type
  serves for addresses and byte counts. A byte is an 8-bit word.

  A call \<^verbatim>\<open>Read(addr, dst, size)\<close> of the virtual interface is embedded as a function
  of the object's state, the address and the size. It returns the state after the call,
  the \<^verbatim>\<open>size_t\<close> result and the bytes the call stored at the start of \<^verbatim>\<open>dst\<close>.
  A wrapper that holds another memory takes the wrapped object's \<open>Read\<close> as its first
  argument, which is the virtual call.
\<close>

type_synonym u64 = "64 word"
type_synonym byte = "8 word"
type_synonym 's Read = "'s \<Rightarrow> u64 \<Rightarrow> u64 \<Rightarrow> 's \<times> u64 \<times> byte list"

definition UINT64_MAX :: u64 where
  "UINT64_MAX = 18446744073709551615"

definition UINTPTR_MAX :: u64 where
  "UINTPTR_MAX = 18446744073709551615"

text \<open>
  \<^verbatim>\<open>__builtin_add_overflow(a, b, &r)\<close> and \<^verbatim>\<open>__builtin_sub_overflow(a, b, &r)\<close> on
  \<^verbatim>\<open>uint64_t\<close>: the flag they return. The stored result is the wrapped sum or
  difference, \<open>a + b\<close> or \<open>a - b\<close> on words.
\<close>

definition builtin_add_overflow :: "u64 \<Rightarrow> u64 \<Rightarrow> bool" where
  "builtin_add_overflow a b = (2 ^ 64 \<le> unat a + unat b)"

definition builtin_sub_overflow :: "u64 \<Rightarrow> u64 \<Rightarrow> bool" where
  "builtin_sub_overflow a b = (a < b)"

text \<open>
  The object representation of a \<^verbatim>\<open>long\<close> or \<^verbatim>\<open>uint64_t\<close> as eight bytes and back,
  least significant byte first (every target of the library is little-endian).
\<close>

definition long_bytes :: "u64 \<Rightarrow> byte list" where
  "long_bytes v = map (\<lambda>i. ucast (drop_bit (8 * i) v)) [0..<8]"

definition load_u64 :: "byte list \<Rightarrow> u64" where
  "load_u64 bs = foldr (\<lambda>b acc. ucast b + push_bit 8 acc) (take 8 bs) 0"

section \<open>The operating system\<close>

text \<open>
  What the code asks of the kernel and the C library, as one record:
  \<^item> \<open>sys_getpid\<close>: the calling process;
  \<^item> \<open>sys_process_vm_readv pid len iovs\<close>: the bulk-transfer syscall with one local
    descriptor of \<open>len\<close> bytes and the remote descriptors \<open>iovs\<close> (base and length);
    \<open>None\<close> is the result \<open>-1\<close>, \<open>Some bs\<close> a transfer of the bytes \<open>bs\<close>, whose number
    is the result;
  \<^item> \<open>sys_ptrace_peektext pid addr\<close>: the value \<^verbatim>\<open>ptrace(PTRACE_PEEKTEXT, ...)\<close> returns
    and the value of \<^verbatim>\<open>errno\<close> after the call;
  \<^item> \<open>proc_memory\<close>: the calling process's own address space, \<open>None\<close> where no
    readable page is mapped;
  \<^item> \<open>fs_files\<close>: the contents of the files that can be opened for reading;
    \<open>fs_fstat_ok\<close> and \<open>fs_mmap_ok\<close> say whether \<^verbatim>\<open>fstat\<close> and \<^verbatim>\<open>mmap\<close> of at least one
    byte succeed on a file.
\<close>

record os =
  sys_getpid :: int
  sys_process_vm_readv :: "int \<Rightarrow> u64 \<Rightarrow> (u64 \<times> u64) list \<Rightarrow> byte list option"
  sys_ptrace_peektext :: "int \<Rightarrow> u64 \<Rightarrow> u64 \<times> int"
  proc_memory :: "u64 \<Rightarrow> byte option"
  fs_files :: "string \<Rightarrow> byte list option"
  fs_fstat_ok :: "string \<Rightarrow> bool"
  fs_mmap_ok :: "string \<Rightarrow> bool"

text \<open>
  \<^verbatim>\<open>getpagesize()\<close> is fixed at 4096 bytes, the page size of the supported targets.
\<close>

definition getpagesize :: u64 where
  "getpagesize = 4096"

section \<open>Bulk transfer: \<^verbatim>\<open>ProcessVmRead\<close>\<close>

text \<open>
  The inner loop of \<^verbatim>\<open>ProcessVmRead\<close> fills at most \<^verbatim>\<open>kMaxIovecs\<close> remote descriptors,
  each ending at a page boundary. The first argument of \<open>fill_iovecs\<close> is the number of
  free descriptors, \<^verbatim>\<open>kMaxIovecs - iovecs_used\<close>. The result \<open>None\<close> is one of the two
  \<^verbatim>\<open>return total_read\<close> statements inside the loop; otherwise the loop ends with the
  descriptors, \<^verbatim>\<open>cur\<close> and \<^verbatim>\<open>len\<close>. The source tests \<^verbatim>\<open>len > 0\<close> before it tests for a
  free descriptor; with none free the loop ends either way, with the same values.
\<close>

definition kMaxIovecs :: nat where
  "kMaxIovecs = 64"

fun fill_iovecs ::
  "nat \<Rightarrow> u64 \<Rightarrow> u64 \<Rightarrow> (u64 \<times> u64) list \<Rightarrow> ((u64 \<times> u64) list \<times> u64 \<times> u64) option" where
  "fill_iovecs 0 cur len src_iovs = Some (src_iovs, cur, len)"
| "fill_iovecs (Suc free) cur len src_iovs =
     (if len > 0 then
        if cur \<ge> UINTPTR_MAX then None
        else
          let misalignment = cur AND (getpagesize - 1);
              iov_len = min (getpagesize - misalignment) len;
              len' = len - iov_len
          in if builtin_add_overflow cur iov_len then None
             else fill_iovecs free (cur + iov_len) len' (src_iovs @ [(cur, iov_len)])
      else Some (src_iovs, cur, len))"

text \<open>
  The outer loop issues one syscall per batch of descriptors and adds up what was
  transferred. It ends because every batch takes at least one byte off \<^verbatim>\<open>len\<close>.
\<close>

function ProcessVmRead_loop ::
  "os \<Rightarrow> int \<Rightarrow> u64 \<Rightarrow> u64 \<Rightarrow> u64 \<Rightarrow> byte list \<Rightarrow> u64 \<times> byte list" where
  "ProcessVmRead_loop os pid cur len total_read dst =
     (if len > 0 then
        (case fill_iovecs kMaxIovecs cur len [] of
           None \<Rightarrow> (total_read, dst)
         | Some (src_iovs, cur', len') \<Rightarrow>
             (case sys_process_vm_readv os pid len src_iovs of
                None \<Rightarrow> (total_read, dst)
              | Some bs \<Rightarrow>
                  ProcessVmRead_loop os pid cur' len' (total_read + of_nat (length bs)) (dst @ bs)))
      else (total_read, dst))"
  by pat_completeness auto
termination
proof (relation "measure (\<lambda>(os, pid, cur, len, total_read, dst). unat len)")
  show "wf (measure (\<lambda>(os, pid, cur, len, total_read, dst). unat len))" by simp
next
  fix os :: os and pid :: int and cur len total_read :: u64 and dst :: "byte list"
    and x2 src_iovs y cur' len' x2a
  assume pos: "0 < len"
    and fill: "fill_iovecs kMaxIovecs cur len [] = Some x2"
    and x2: "(src_iovs, y) = x2" and y: "(cur', len') = y"
  have mono: "fill_iovecs n c l iovs = Some (iovs', c', l') \<Longrightarrow> l' \<le> l"
    for n c l iovs iovs' c' l'
  proof (induction n arbitrary: c l iovs)
    case 0
    then show ?case by (simp split: if_splits)
  next
    case (Suc n)
    show ?case
    proof (cases "0 < l")
      case False
      with Suc.prems show ?thesis by simp
    next
      case True
      let ?iov = "min (getpagesize - (c AND (getpagesize - 1))) l"
      from Suc.prems True
      have rec: "fill_iovecs n (c + ?iov) (l - ?iov) (iovs @ [(c, ?iov)]) = Some (iovs', c', l')"
        by (simp add: Let_def split: if_splits)
      have "?iov \<le> l" by simp
      then have "l - ?iov \<le> l" by (simp add: word_sub_le)
      with Suc.IH [OF rec] show ?thesis by simp
    qed
  qed
  let ?iov = "min (getpagesize - (cur AND (getpagesize - 1))) len"
  have and_le: "cur AND (getpagesize - 1) \<le> 4095"
    by (simp add: getpagesize_def word_and_le1)
  then have un: "unat (cur AND (getpagesize - 1)) \<le> 4095"
    by (simp add: word_le_nat_alt)
  have "cur AND (getpagesize - 1) \<le> getpagesize"
    by (rule order_trans [OF and_le]) (simp add: getpagesize_def)
  then have "unat (getpagesize - (cur AND (getpagesize - 1))) = 4096 - unat (cur AND (getpagesize - 1))"
    by (simp add: unat_sub getpagesize_def)
  then have "0 < unat (getpagesize - (cur AND (getpagesize - 1)))"
    using un by simp
  then have gp: "0 < getpagesize - (cur AND (getpagesize - 1))"
    by (simp add: word_less_nat_alt)
  with pos have iov_pos: "0 < ?iov" by (simp add: min_def)
  have iov_le: "?iov \<le> len" by simp
  have k: "kMaxIovecs = Suc 63" by (simp add: kMaxIovecs_def)
  from fill [unfolded k fill_iovecs.simps(2)] x2 y pos
  have rec: "fill_iovecs 63 (cur + ?iov) (len - ?iov) ([] @ [(cur, ?iov)]) = Some (src_iovs, cur', len')"
    by (simp add: Let_def split: if_splits)
  have "len' \<le> len - ?iov" using mono [OF rec] .
  moreover have "len - ?iov < len"
  proof -
    have "unat (len - ?iov) = unat len - unat ?iov" by (rule unat_sub [OF iov_le])
    moreover have "0 < unat ?iov" using iov_pos by (simp add: word_less_nat_alt)
    moreover have "unat ?iov \<le> unat len" using iov_le by (simp add: word_le_nat_alt)
    ultimately show ?thesis by (simp add: word_less_nat_alt)
  qed
  ultimately have "len' < len" by simp
  then show "((os, pid, cur', len', total_read + word_of_nat (length x2a), dst @ x2a),
              (os, pid, cur, len, total_read, dst))
             \<in> measure (\<lambda>(os, pid, cur, len, total_read, dst). unat len)"
    by (simp add: word_less_nat_alt)
qed

declare ProcessVmRead_loop.simps [simp del]

definition ProcessVmRead :: "os \<Rightarrow> int \<Rightarrow> u64 \<Rightarrow> u64 \<Rightarrow> u64 \<times> byte list" where
  "ProcessVmRead os pid remote_src len = ProcessVmRead_loop os pid remote_src len 0 []"

section \<open>Word-at-a-time transfer: \<^verbatim>\<open>PtraceRead\<close>\<close>

text \<open>
  \<^verbatim>\<open>PtraceReadLong\<close> fails when \<^verbatim>\<open>ptrace\<close> returns \<open>-1\<close> with \<^verbatim>\<open>errno\<close> set. The loop over
  the full words of \<^verbatim>\<open>PtraceRead\<close> counts down the number of words left; \<open>Inl\<close> is its
  early \<^verbatim>\<open>return bytes_read\<close>.
\<close>

definition PtraceReadLong :: "os \<Rightarrow> int \<Rightarrow> u64 \<Rightarrow> u64 option" where
  "PtraceReadLong os pid addr =
     (case sys_ptrace_peektext os pid addr of
        (v, errno) \<Rightarrow> if v = - 1 \<and> errno \<noteq> 0 then None else Some v)"

fun PtraceRead_loop ::
  "os \<Rightarrow> int \<Rightarrow> nat \<Rightarrow> u64 \<Rightarrow> u64 \<Rightarrow> byte list \<Rightarrow> (u64 \<times> byte list) + (u64 \<times> u64 \<times> byte list)" where
  "PtraceRead_loop os pid 0 addr bytes_read dst = Inr (addr, bytes_read, dst)"
| "PtraceRead_loop os pid (Suc n) addr bytes_read dst =
     (case PtraceReadLong os pid addr of
        None \<Rightarrow> Inl (bytes_read, dst)
      | Some data \<Rightarrow> PtraceRead_loop os pid n (addr + 8) (bytes_read + 8) (dst @ long_bytes data))"

definition PtraceRead :: "os \<Rightarrow> int \<Rightarrow> u64 \<Rightarrow> u64 \<Rightarrow> u64 \<times> byte list" where
  "PtraceRead os pid addr bytes =
     (if builtin_add_overflow addr bytes then (0, [])
      else
        let align_bytes = addr AND 7 in
        case (if align_bytes \<noteq> 0 then
                (case PtraceReadLong os pid (addr AND NOT 7) of
                   None \<Rightarrow> None
                 | Some data \<Rightarrow>
                     let copy_bytes = min (8 - align_bytes) bytes
                     in Some (addr + copy_bytes, bytes - copy_bytes, copy_bytes,
                              take (unat copy_bytes) (drop (unat align_bytes) (long_bytes data))))
              else Some (addr, bytes, 0, []))
        of
          None \<Rightarrow> (0, [])
        | Some (addr1, bytes1, bytes_read1, dst1) \<Rightarrow>
            (case PtraceRead_loop os pid (unat (bytes1 div 8)) addr1 bytes_read1 dst1 of
               Inl r \<Rightarrow> r
             | Inr (addr2, bytes_read2, dst2) \<Rightarrow>
                 let left_over = bytes1 AND 7 in
                 if left_over \<noteq> 0 then
                   (case PtraceReadLong os pid addr2 of
                      None \<Rightarrow> (bytes_read2, dst2)
                    | Some data \<Rightarrow>
                        (bytes_read2 + left_over, dst2 @ take (unat left_over) (long_bytes data)))
                 else (bytes_read2, dst2)))"

section \<open>\<^verbatim>\<open>Memory::ReadFully\<close> and \<^verbatim>\<open>Memory::ReadString\<close>\<close>

definition ReadFully :: "'s Read \<Rightarrow> 's \<Rightarrow> u64 \<Rightarrow> u64 \<Rightarrow> 's \<times> bool \<times> byte list" where
  "ReadFully rd s addr sz = (case rd s addr sz of (s', rc, data) \<Rightarrow> (s', rc = sz, data))"

text \<open>
  \<^verbatim>\<open>strnlen(buffer, size)\<close>: the index of the first zero byte among the first \<^verbatim>\<open>size\<close>
  bytes, or \<^verbatim>\<open>size\<close>.
\<close>

definition strnlen :: "byte list \<Rightarrow> u64 \<Rightarrow> u64" where
  "strnlen buffer maxlen =
     of_nat (length (takeWhile (\<lambda>c. c \<noteq> 0) (take (unat maxlen) buffer)))"

text \<open>
  The \<^verbatim>\<open>for\<close> loop of \<^verbatim>\<open>ReadString\<close>, with \<^verbatim>\<open>offset\<close> as its loop variable. The result
  is the object's state, the boolean returned and the contents of \<^verbatim>\<open>*dst\<close>. The loop
  is a partial function: \<open>None\<close> stands for a scan that never returns.
\<close>

partial_function (option) ReadString_loop ::
  "'s Read \<Rightarrow> u64 \<Rightarrow> u64 \<Rightarrow> 's \<Rightarrow> u64 \<Rightarrow> byte list \<Rightarrow> ('s \<times> bool \<times> byte list) option" where
  "ReadString_loop rd addr max_read s offset dst =
     (if offset < max_read then
        (let read = min 256 (max_read - offset) in
         case rd s (addr + offset) read of
           (s1, size1, buffer) \<Rightarrow>
             if size1 = 0 then Some (s1, False, dst)
             else
               let len = strnlen buffer size1 in
               if len < size1 then
                 (if offset = 0 then Some (s1, True, take (unat len) buffer)
                  else
                    let dst1 = replicate (unat (offset + len)) (0 :: byte) in
                    case ReadFully rd s1 addr (offset + len) of
                      (s2, ok, data) \<Rightarrow> Some (s2, ok, data @ drop (length data) dst1))
               else ReadString_loop rd addr max_read s1 (offset + size1) dst)
      else Some (s, False, dst))"

declare ReadString_loop.simps [code]

definition ReadString ::
  "'s Read \<Rightarrow> 's \<Rightarrow> u64 \<Rightarrow> byte list \<Rightarrow> u64 \<Rightarrow> ('s \<times> bool \<times> byte list) option" where
  "ReadString rd s addr dst max_read = ReadString_loop rd addr max_read s 0 dst"

section \<open>Buffer memory and mapped-file memory\<close>

text \<open>
  \<^verbatim>\<open>MemoryBuffer\<close> holds a pointer \<^verbatim>\<open>raw_\<close> and a byte count \<^verbatim>\<open>size_\<close>; the list
  \<open>buf_raw\<close> is the storage the pointer addresses. The class keeps the two in
  step, which is the predicate \<open>MemoryBuffer_valid\<close>.
\<close>

record MemoryBuffer =
  buf_raw :: "byte list"
  buf_size :: u64

definition MemoryBuffer_valid :: "MemoryBuffer \<Rightarrow> bool" where
  "MemoryBuffer_valid m = (length (buf_raw m) = unat (buf_size m))"

definition MemoryBuffer_Read :: "MemoryBuffer \<Rightarrow> u64 \<Rightarrow> u64 \<Rightarrow> u64 \<times> byte list" where
  "MemoryBuffer_Read m addr sz =
     (if addr \<ge> buf_size m then (0, [])
      else
        let bytes_left = buf_size m - addr;
            actual_base = drop (unat addr) (buf_raw m);
            actual_len = min bytes_left sz
        in (actual_len, take (unat actual_len) actual_base))"

text \<open>
  \<^verbatim>\<open>MemoryFileAtOffset\<close>: \<open>file_data\<close> is the storage addressed by the pointer
  \<^verbatim>\<open>data_\<close> (empty for the null pointer), \<open>file_size\<close> the exposed size \<^verbatim>\<open>size_\<close> and
  \<open>file_offset\<close> the distance \<^verbatim>\<open>offset_\<close> of \<^verbatim>\<open>data_\<close> from the start of the mapping.
  \<^verbatim>\<open>Init\<close> maps the file from the page-aligned offset; the mapping holds the file's
  bytes from there. \<^verbatim>\<open>st_size\<close> is the length of the file. \<^verbatim>\<open>mmap\<close> with the length 0
  fails on every file.
\<close>

record MemoryFileAtOffset =
  file_data :: "byte list"
  file_size :: u64
  file_offset :: u64

definition MemoryFileAtOffset_valid :: "MemoryFileAtOffset \<Rightarrow> bool" where
  "MemoryFileAtOffset_valid m = (length (file_data m) = unat (file_size m))"

definition MemoryFileAtOffset_Clear :: "MemoryFileAtOffset \<Rightarrow> MemoryFileAtOffset" where
  "MemoryFileAtOffset_Clear m = m\<lparr>file_data := []\<rparr>"

definition MemoryFileAtOffset_Init ::
  "os \<Rightarrow> MemoryFileAtOffset \<Rightarrow> string \<Rightarrow> u64 \<Rightarrow> u64 \<Rightarrow> MemoryFileAtOffset \<times> bool" where
  "MemoryFileAtOffset_Init os m file offset sz =
     (let m0 = MemoryFileAtOffset_Clear m in
      case fs_files os file of
        None \<Rightarrow> (m0, False)
      | Some contents \<Rightarrow>
          if \<not> fs_fstat_ok os file then (m0, False)
          else
            let st_size = (of_nat (length contents) :: u64) in
            if offset \<ge> st_size then (m0, False)
            else
              let m1 = m0\<lparr>file_offset := offset AND (getpagesize - 1)\<rparr>;
                  aligned_offset = offset AND NOT (getpagesize - 1)
              in
              if aligned_offset > st_size \<or> offset > st_size then (m1, False)
              else
                let m2 = m1\<lparr>file_size := st_size - aligned_offset\<rparr>;
                    max_size = sz + file_offset m2;
                    m3 = (if \<not> builtin_add_overflow sz (file_offset m2) \<and> max_size < file_size m2
                          then m2\<lparr>file_size := max_size\<rparr> else m2)
                in
                if file_size m3 = 0 \<or> \<not> fs_mmap_ok os file then (m3, False)
                else
                  let map = take (unat (file_size m3)) (drop (unat aligned_offset) contents)
                  in (m3\<lparr>file_data := drop (unat (file_offset m3)) map,
                         file_size := file_size m3 - file_offset m3\<rparr>, True))"

definition MemoryFileAtOffset_Read ::
  "MemoryFileAtOffset \<Rightarrow> u64 \<Rightarrow> u64 \<Rightarrow> u64 \<times> byte list" where
  "MemoryFileAtOffset_Read m addr sz =
     (if addr \<ge> file_size m then (0, [])
      else
        let bytes_left = file_size m - addr;
            actual_base = drop (unat addr) (file_data m);
            actual_len = min bytes_left sz
        in (actual_len, take (unat actual_len) actual_base))"

section \<open>Remote-process and local-process memory\<close>

text \<open>
  \<^verbatim>\<open>read_redirect_func_\<close> holds a null pointer or the address of one of the two transfer
  functions. \<open>MemoryRemote_Read\<close> returns, next to the object, the count and the bytes,
  the list of the transfer functions the call invoked, in order.
  \<open>MemoryRemote_Reads\<close> runs a sequence of reads on one object, each against the
  operating system as it is at that moment, and collects for each read what it returned
  and the transfer functions it invoked.
\<close>

datatype read_func = ProcessVmRead_fn | PtraceRead_fn

definition call_read_func :: "read_func \<Rightarrow> os \<Rightarrow> int \<Rightarrow> u64 \<Rightarrow> u64 \<Rightarrow> u64 \<times> byte list" where
  "call_read_func f = (case f of ProcessVmRead_fn \<Rightarrow> ProcessVmRead | PtraceRead_fn \<Rightarrow> PtraceRead)"

record MemoryRemote =
  remote_pid :: int
  read_redirect_func :: "read_func option"

definition MemoryRemote_Read ::
  "os \<Rightarrow> MemoryRemote \<Rightarrow> u64 \<Rightarrow> u64 \<Rightarrow> (MemoryRemote \<times> u64 \<times> byte list) \<times> read_func list" where
  "MemoryRemote_Read os m addr sz =
     (case read_redirect_func m of
        Some read_func \<Rightarrow> ((m, call_read_func read_func os (remote_pid m) addr sz), [read_func])
      | None \<Rightarrow>
          (case ProcessVmRead os (remote_pid m) addr sz of
             (bytes, dst) \<Rightarrow>
               if bytes > 0 then
                 ((m\<lparr>read_redirect_func := Some ProcessVmRead_fn\<rparr>, bytes, dst), [ProcessVmRead_fn])
               else
                 (case PtraceRead os (remote_pid m) addr sz of
                    (bytes', dst') \<Rightarrow>
                      ((if bytes' > 0 then m\<lparr>read_redirect_func := Some PtraceRead_fn\<rparr> else m,
                        bytes', dst'),
                       [ProcessVmRead_fn, PtraceRead_fn]))))"

fun MemoryRemote_Reads ::
  "MemoryRemote \<Rightarrow> (os \<times> u64 \<times> u64) list \<Rightarrow>
   MemoryRemote \<times> ((u64 \<times> byte list) \<times> read_func list) list" where
  "MemoryRemote_Reads m [] = (m, [])"
| "MemoryRemote_Reads m ((os, addr, sz) # reqs) =
     (case MemoryRemote_Read os m addr sz of
        ((m', r), calls) \<Rightarrow>
          (case MemoryRemote_Reads m' reqs of (m'', tr) \<Rightarrow> (m'', (r, calls) # tr)))"

text \<open>
  \<^verbatim>\<open>MemoryLocal::Read\<close> falls back to \<^verbatim>\<open>memcpy(dst, (void*)addr, size)\<close>. The copy reads the
  process's own address space; where a byte of the range is not mapped the process
  faults, which is the result \<open>None\<close>.
\<close>

definition memcpy_from :: "os \<Rightarrow> u64 \<Rightarrow> u64 \<Rightarrow> byte list option" where
  "memcpy_from os addr sz = those (map (\<lambda>i. proc_memory os (addr + of_nat i)) [0..<unat sz])"

definition MemoryLocal_Read :: "os \<Rightarrow> u64 \<Rightarrow> u64 \<Rightarrow> (u64 \<times> byte list) option" where
  "MemoryLocal_Read os addr sz =
     (case ProcessVmRead os (sys_getpid os) addr sz of
        (result, dst) \<Rightarrow>
          if result = 0 \<and> sz \<noteq> 0 then
            (case memcpy_from os addr sz of
               None \<Rightarrow> None
             | Some bs \<Rightarrow> Some (sz, bs))
          else Some (result, dst))"

section \<open>Range and range-set memory\<close>

record 'm MemoryRange =
  range_memory :: 'm
  range_begin :: u64
  range_length :: u64
  range_offset :: u64

definition MemoryRange_Read :: "'m Read \<Rightarrow> 'm MemoryRange Read" where
  "MemoryRange_Read rd r addr sz =
     (if addr < range_offset r then (r, 0, [])
      else
        let read_offset = addr - range_offset r in
        if read_offset \<ge> range_length r then (r, 0, [])
        else
          let read_length = min sz (range_length r - read_offset) in
          if builtin_add_overflow read_offset (range_begin r) then (r, 0, [])
          else
            (case rd (range_memory r) (read_offset + range_begin r) read_length of
               (m', n, data) \<Rightarrow> (r\<lparr>range_memory := m'\<rparr>, n, data)))"

text \<open>
  \<^verbatim>\<open>MemoryRanges\<close> keeps a \<^verbatim>\<open>std::multimap\<close> from upper bounds to ranges: a list of
  entries in key order. \<open>multimap_emplace\<close> puts a new entry behind the entries whose
  key is not larger, and the lookup \<^verbatim>\<open>upper_bound(addr)\<close> is the first entry in key
  order whose key is larger than \<open>addr\<close>. Every range of the set owns its memory here:
  a memory shared between ranges is not modelled.
\<close>

type_synonym 'm MemoryRanges = "(u64 \<times> 'm MemoryRange) list"

fun multimap_emplace :: "u64 \<Rightarrow> 'a \<Rightarrow> (u64 \<times> 'a) list \<Rightarrow> (u64 \<times> 'a) list" where
  "multimap_emplace k v [] = [(k, v)]"
| "multimap_emplace k v ((k', v') # rest) =
     (if k < k' then (k, v) # (k', v') # rest else (k', v') # multimap_emplace k v rest)"

definition MemoryRanges_Insert :: "'m MemoryRanges \<Rightarrow> 'm MemoryRange \<Rightarrow> 'm MemoryRanges" where
  "MemoryRanges_Insert maps memory =
     (let last_addr = (if builtin_add_overflow (range_offset memory) (range_length memory)
                       then UINT64_MAX
                       else range_offset memory + range_length memory)
      in multimap_emplace last_addr memory maps)"

fun MemoryRanges_Read :: "'m Read \<Rightarrow> 'm MemoryRanges Read" where
  "MemoryRanges_Read rd [] addr sz = ([], 0, [])"
| "MemoryRanges_Read rd ((k, r) # rest) addr sz =
     (if addr < k then
        (case MemoryRange_Read rd r addr sz of (r', n, data) \<Rightarrow> ((k, r') # rest, n, data))
      else
        (case MemoryRanges_Read rd rest addr sz of (rest', n, data) \<Rightarrow> ((k, r) # rest', n, data)))"

section \<open>Offline snapshot memory\<close>

text \<open>
  Buffer and file memory as instances of the virtual \<open>Read\<close>: the object is unchanged.
\<close>

definition MemoryFileAtOffset_reader :: "MemoryFileAtOffset Read" where
  "MemoryFileAtOffset_reader m addr sz = (m, MemoryFileAtOffset_Read m addr sz)"

definition MemoryBuffer_reader :: "MemoryBuffer Read" where
  "MemoryBuffer_reader m addr sz = (m, MemoryBuffer_Read m addr sz)"

text \<open>
  Modelled from the spec: the default value of the \<^verbatim>\<open>size\<close> argument of
  \<^verbatim>\<open>MemoryFileAtOffset::Init\<close>, declared in \<^verbatim>\<open>MemoryFileAtOffset.h\<close>, which is not among
  the sources. A snapshot file is its header followed by all the captured bytes, so the
  default asks for the whole remainder of the file: the largest size.
\<close>

definition Init_default_size :: u64 where
  "Init_default_size = UINT64_MAX"

text \<open>
  \<^verbatim>\<open>MemoryOffline\<close> holds \<^verbatim>\<open>memory_\<close>, null before \<^verbatim>\<open>Init\<close> succeeds, afterwards a range
  over the mapped file.
\<close>

record MemoryOffline =
  offline_memory :: "MemoryFileAtOffset MemoryRange option"

definition MemoryOffline_Init :: "os \<Rightarrow> MemoryOffline \<Rightarrow> string \<Rightarrow> u64 \<Rightarrow> MemoryOffline \<times> bool" where
  "MemoryOffline_Init os m file offset =
     (case MemoryFileAtOffset_Init os \<lparr>file_data = [], file_size = 0, file_offset = 0\<rparr>
             file offset Init_default_size of
        (memory_file, ok) \<Rightarrow>
          if \<not> ok then (m, False)
          else
            (case ReadFully MemoryFileAtOffset_reader memory_file 0 8 of
               (memory_file', ok', start_bytes) \<Rightarrow>
                 if \<not> ok' then (m, False)
                 else
                   let start = load_u64 start_bytes;
                       sz = file_size memory_file'
                   in
                   if builtin_sub_overflow sz 8 then (m, False)
                   else
                     (m\<lparr>offline_memory :=
                          Some \<lparr>range_memory = memory_file', range_begin = 8,
                                range_length = sz - 8, range_offset = start\<rparr>\<rparr>, True)))"

definition MemoryOffline_Read :: "MemoryOffline \<Rightarrow> u64 \<Rightarrow> u64 \<Rightarrow> u64 \<times> byte list" where
  "MemoryOffline_Read m addr sz =
     (case offline_memory m of
        None \<Rightarrow> (0, [])
      | Some memory \<Rightarrow> snd (MemoryRange_Read MemoryFileAtOffset_reader memory addr sz))"

section \<open>Offline memory over a buffer and over several snapshots\<close>

text \<open>
  \<^verbatim>\<open>MemoryOfflineBuffer\<close> holds a pointer \<^verbatim>\<open>data_\<close> and the addresses \<^verbatim>\<open>start_\<close> and \<^verbatim>\<open>end_\<close>
  that the bytes behind the pointer stand for; \<open>offbuf_data\<close> is the storage the pointer
  addresses. \<^verbatim>\<open>MemoryOfflineParts\<close> holds a list of offline snapshots and returns the
  first read that is not zero bytes.
\<close>

record MemoryOfflineBuffer =
  offbuf_data :: "byte list"
  offbuf_start :: u64
  offbuf_end :: u64

definition MemoryOfflineBuffer_Read :: "MemoryOfflineBuffer \<Rightarrow> u64 \<Rightarrow> u64 \<Rightarrow> u64 \<times> byte list" where
  "MemoryOfflineBuffer_Read m addr sz =
     (if addr < offbuf_start m \<or> addr \<ge> offbuf_end m then (0, [])
      else
        let read_length = min sz (offbuf_end m - addr)
        in (read_length, take (unat read_length) (drop (unat (addr - offbuf_start m)) (offbuf_data m))))"

fun MemoryOfflineParts_Read :: "MemoryOffline list \<Rightarrow> u64 \<Rightarrow> u64 \<Rightarrow> u64 \<times> byte list" where
  "MemoryOfflineParts_Read [] addr sz = (0, [])"
| "MemoryOfflineParts_Read (memory # memories) addr sz =
     (case MemoryOffline_Read memory addr sz of
        (bytes, dst) \<Rightarrow>
          if bytes \<noteq> 0 then (bytes, dst) else MemoryOfflineParts_Read memories addr sz)"

section \<open>Paging cache\<close>

text \<open>
  Modelled from the spec: \<^verbatim>\<open>kCacheBits\<close> is declared in \<^verbatim>\<open>MemoryCache.h\<close>, which is not
  among the sources. The spec gives the page size of the cache as \<open>1 << kCacheBits\<close> and
  as 4096 bytes.
\<close>

definition kCacheBits :: nat where
  "kCacheBits = 12"

text \<open>
  Modelled from the spec: \<^verbatim>\<open>kCacheMask\<close>, declared in the same header, selects the offset
  of an address within its page: the page size minus one.
\<close>

definition kCacheMask :: u64 where
  "kCacheMask = push_bit kCacheBits 1 - 1"

text \<open>
  Modelled from the spec: \<^verbatim>\<open>kCacheSize\<close>, declared in the same header, is the page size
  \<open>1 << kCacheBits\<close>.
\<close>

definition kCacheSize :: u64 where
  "kCacheSize = push_bit kCacheBits 1"

text \<open>
  The cache maps a page index to a page. \<open>new_page\<close> is the slot that
  \<^verbatim>\<open>(*cache)[addr_page]\<close> inserts, \<open>filled_page data\<close> the slot after the wrapped source
  has stored \<open>data\<close> in it.
\<close>

type_synonym CacheDataType = "u64 \<rightharpoonup> byte list"

definition new_page :: "byte list" where
  "new_page = replicate (unat kCacheSize) 0"

definition filled_page :: "byte list \<Rightarrow> byte list" where
  "filled_page data = take (unat kCacheSize) (data @ drop (length data) new_page)"

text \<open>
  \<^verbatim>\<open>InternalCachedRead\<close> contains the same block twice, once for the page of \<^verbatim>\<open>addr\<close>
  and once for the page behind it: look the page up; when it is absent insert a slot,
  fill it with \<^verbatim>\<open>ReadFully\<close> from the wrapped source \<^verbatim>\<open>impl_\<close> and erase the slot again when
  that fails. \<open>cache_page\<close> is this block. It returns the wrapped source, the cache and
  the page \<^verbatim>\<open>cache_dst\<close>, or \<open>None\<close> for the page where the block goes on to its
  \<^verbatim>\<open>return\<close> statement, which differs between the two occurrences.
\<close>

definition cache_page ::
  "'s Read \<Rightarrow> 's \<Rightarrow> u64 \<Rightarrow> CacheDataType \<Rightarrow> 's \<times> CacheDataType \<times> byte list option" where
  "cache_page rd impl addr_page cache =
     (case cache addr_page of
        Some cache_dst \<Rightarrow> (impl, cache, Some cache_dst)
      | None \<Rightarrow>
          let cache1 = cache(addr_page \<mapsto> new_page) in
          case ReadFully rd impl (push_bit kCacheBits addr_page) kCacheSize of
            (impl1, ok, data) \<Rightarrow>
              if \<not> ok then (impl1, cache1(addr_page := None), None)
              else (impl1, cache1(addr_page \<mapsto> filled_page data), Some (filled_page data)))"

text \<open>
  \<^verbatim>\<open>InternalCachedRead\<close>, with the wrapped source and the cache as state: the result is
  the two of them after the call, the count returned and the bytes stored in \<^verbatim>\<open>dst\<close>.
\<close>

definition InternalCachedRead ::
  "'s Read \<Rightarrow> 's \<Rightarrow> u64 \<Rightarrow> u64 \<Rightarrow> CacheDataType \<Rightarrow> 's \<times> CacheDataType \<times> u64 \<times> byte list" where
  "InternalCachedRead rd impl addr sz cache =
     (let addr_page = drop_bit kCacheBits addr in
      case cache_page rd impl addr_page cache of
        (impl1, cache1, None) \<Rightarrow>
          (case rd impl1 addr sz of (impl2, n, d) \<Rightarrow> (impl2, cache1, n, d))
      | (impl1, cache1, Some cache_dst) \<Rightarrow>
          let max_read = push_bit kCacheBits (addr_page + 1) - addr in
          if sz \<le> max_read then
            (impl1, cache1, sz, take (unat sz) (drop (unat (addr AND kCacheMask)) cache_dst))
          else
            let dst = take (unat max_read) (drop (unat (addr AND kCacheMask)) cache_dst);
                addr_page2 = addr_page + 1
            in
            case cache_page rd impl1 addr_page2 cache1 of
              (impl2, cache2, None) \<Rightarrow>
                (case rd impl2 (push_bit kCacheBits addr_page2) (sz - max_read) of
                   (impl3, n, d) \<Rightarrow> (impl3, cache2, n + max_read, dst @ d))
            | (impl2, cache2, Some cache_dst2) \<Rightarrow>
                (impl2, cache2, sz, dst @ take (unat (sz - max_read)) cache_dst2))"

section \<open>Notions used in the statements\<close>

text \<open>
  \<open>serves rd I addr mem\<close>: in every state that satisfies the invariant \<open>I\<close>, the memory
  read by \<open>rd\<close> holds the bytes \<open>mem\<close> from address \<open>addr\<close> on and nothing readable
  directly behind them. A read at \<open>addr + k\<close> returns the bytes of \<open>mem\<close> from index \<open>k\<close>,
  as many as were asked for or as are left, and keeps the invariant.
\<close>

definition serves :: "'s Read \<Rightarrow> ('s \<Rightarrow> bool) \<Rightarrow> u64 \<Rightarrow> byte list \<Rightarrow> bool" where
  "serves rd I addr mem =
     (\<forall>s k sz. I s \<and> k \<le> length mem \<longrightarrow>
        (case rd s (addr + of_nat k) sz of
           (s', n, data) \<Rightarrow>
             I s' \<and> n = of_nat (min (unat sz) (length mem - k)) \<and>
             data = take (unat sz) (drop k mem)))"

text \<open>
  \<open>content_at rd I addr mem\<close>: in every state that satisfies the invariant \<open>I\<close>, the
  content of the memory read by \<open>rd\<close> is \<open>mem\<close> from address \<open>addr\<close> on. A read at
  \<open>addr + k\<close> returns bytes of \<open>mem\<close> from index \<open>k\<close> on: no more than were asked for, as
  many as the count says, at least one when a byte is asked for and one is left, and
  none at the end of \<open>mem\<close>; it keeps the invariant. The read may return fewer bytes
  than are asked for and left.
\<close>

definition content_at :: "'s Read \<Rightarrow> ('s \<Rightarrow> bool) \<Rightarrow> u64 \<Rightarrow> byte list \<Rightarrow> bool" where
  "content_at rd I addr mem =
     (\<forall>s k sz. I s \<and> k \<le> length mem \<longrightarrow>
        (case rd s (addr + of_nat k) sz of
           (s', n, data) \<Rightarrow>
             I s' \<and> n \<le> sz \<and> length data = unat n \<and> data = take (unat n) (drop k mem) \<and>
             (k < length mem \<and> sz \<noteq> 0 \<longrightarrow> n \<noteq> 0)))"

text \<open>
  \<open>scan_reaches rd addr max_read s0 (s, offset)\<close>: the loop of \<^verbatim>\<open>ReadString\<close>, started on
  the object \<open>s0\<close>, arrives at the head of an iteration with the object in state \<open>s\<close>
  and the loop variable at \<open>offset\<close>. Each step is one chunk read that returned some
  bytes, none of them zero.
\<close>

inductive scan_reaches :: "'s Read \<Rightarrow> u64 \<Rightarrow> u64 \<Rightarrow> 's \<Rightarrow> 's \<times> u64 \<Rightarrow> bool"
  for rd :: "'s Read" and addr max_read :: u64 and s0 :: 's where
  start: "scan_reaches rd addr max_read s0 (s0, 0)"
| chunk: "scan_reaches rd addr max_read s0 (s, offset) \<Longrightarrow> offset < max_read \<Longrightarrow>
          rd s (addr + offset) (min 256 (max_read - offset)) = (s1, size1, buffer) \<Longrightarrow>
          size1 \<noteq> 0 \<Longrightarrow> \<not> strnlen buffer size1 < size1 \<Longrightarrow>
          scan_reaches rd addr max_read s0 (s1, offset + size1)"

section \<open>Example objects\<close>

text \<open>The string \<^verbatim>\<open>"abc"\<close> with its terminator, in a buffer of four bytes.\<close>

definition ex_string_buffer :: MemoryBuffer where
  "ex_string_buffer = \<lparr>buf_raw = [97, 98, 99, 0], buf_size = 4\<rparr>"

text \<open>A buffer of three bytes, none of them zero.\<close>

definition ex_quiet_buffer :: MemoryBuffer where
  "ex_quiet_buffer = \<lparr>buf_raw = [1, 2, 3], buf_size = 3\<rparr>"

text \<open>
  A range set of two adjacent ranges, \<open>[0, 2)\<close> and \<open>[2, 6)\<close>, over a buffer that holds
  \<^verbatim>\<open>"ab"\<close>, a terminator and three more bytes.
\<close>

definition ex_split_buffer :: MemoryBuffer where
  "ex_split_buffer = \<lparr>buf_raw = [97, 98, 0, 1, 2, 3], buf_size = 6\<rparr>"

definition ex_split_ranges :: "MemoryBuffer MemoryRanges" where
  "ex_split_ranges =
     MemoryRanges_Insert
       (MemoryRanges_Insert []
          \<lparr>range_memory = ex_split_buffer, range_begin = 0, range_length = 2, range_offset = 0\<rparr>)
       \<lparr>range_memory = ex_split_buffer, range_begin = 2, range_length = 4, range_offset = 2\<rparr>"

text \<open>
  A range set of two adjacent ranges, \<open>[0, 2)\<close> and \<open>[2, 6)\<close>, over a buffer that holds
  \<^verbatim>\<open>"abc"\<close>, a terminator and two more bytes.
\<close>

definition ex_cut_buffer :: MemoryBuffer where
  "ex_cut_buffer = \<lparr>buf_raw = [97, 98, 99, 0, 1, 2], buf_size = 6\<rparr>"

definition ex_cut_ranges :: "MemoryBuffer MemoryRanges" where
  "ex_cut_ranges =
     MemoryRanges_Insert
       (MemoryRanges_Insert []
          \<lparr>range_memory = ex_cut_buffer, range_begin = 0, range_length = 2, range_offset = 0\<rparr>)
       \<lparr>range_memory = ex_cut_buffer, range_begin = 2, range_length = 4, range_offset = 2\<rparr>"

text \<open>A mapped file of five bytes.\<close>

definition ex_file :: MemoryFileAtOffset where
  "ex_file = \<lparr>file_data = [1, 2, 3, 4, 5], file_size = 5, file_offset = 0\<rparr>"

text \<open>
  A window of four bytes at the logical offset 100, over the bytes of \<open>ex_split_buffer\<close>
  from index 2 on; and a window whose \<^verbatim>\<open>begin_\<close> is so large that the translation overflows.
\<close>

definition ex_window :: "MemoryBuffer MemoryRange" where
  "ex_window = \<lparr>range_memory = ex_split_buffer, range_begin = 2, range_length = 4,
                 range_offset = 100\<rparr>"

definition ex_window_far :: "MemoryBuffer MemoryRange" where
  "ex_window_far = \<lparr>range_memory = ex_split_buffer, range_begin = 18446744073709551615, range_length = 4,
                     range_offset = 100\<rparr>"

text \<open>
  Two ranges \<open>[0, 100)\<close> and \<open>[100, 200)\<close>, each over a buffer of its own, a range
  whose upper bound exceeds the 64-bit range, and the set of the first two, inserted
  with the higher one first.
\<close>

definition ex_low :: "MemoryBuffer MemoryRange" where
  "ex_low = \<lparr>range_memory = \<lparr>buf_raw = replicate 100 1, buf_size = 100\<rparr>,
              range_begin = 0, range_length = 100, range_offset = 0\<rparr>"

definition ex_high :: "MemoryBuffer MemoryRange" where
  "ex_high = \<lparr>range_memory = \<lparr>buf_raw = replicate 100 2, buf_size = 100\<rparr>,
               range_begin = 0, range_length = 100, range_offset = 100\<rparr>"

definition ex_top :: "MemoryBuffer MemoryRange" where
  "ex_top = \<lparr>range_memory = \<lparr>buf_raw = replicate 100 3, buf_size = 100\<rparr>,
              range_begin = 0, range_length = 20, range_offset = 18446744073709551606\<rparr>"

definition ex_two_ranges :: "MemoryBuffer MemoryRanges" where
  "ex_two_ranges = MemoryRanges_Insert (MemoryRanges_Insert [] ex_high) ex_low"

text \<open>
  A snapshot file: the start address \<open>0x1000\<close> in eight bytes, then 100 content bytes, of
  which the first fifty are 1 and the rest 2; an operating system that holds it as the
  file \<^verbatim>\<open>snapshot\<close>; and the offline memory that \<^verbatim>\<open>Init\<close> builds from it.
\<close>

definition ex_snapshot :: "byte list" where
  "ex_snapshot = [0, 16, 0, 0, 0, 0, 0, 0] @ replicate 50 1 @ replicate 50 2"

definition ex_os :: os where
  "ex_os = \<lparr>sys_getpid = 1,
            sys_process_vm_readv = (\<lambda>pid len iovs. None),
            sys_ptrace_peektext = (\<lambda>pid addr. (- 1, 1)),
            proc_memory = (\<lambda>addr. None),
            fs_files = (\<lambda>file. if file = ''snapshot'' then Some ex_snapshot else None),
            fs_fstat_ok = (\<lambda>file. True),
            fs_mmap_ok = (\<lambda>file. True)\<rparr>"

definition ex_offline :: MemoryOffline where
  "ex_offline = fst (MemoryOffline_Init ex_os \<lparr>offline_memory = None\<rparr> ''snapshot'' 0)"

text \<open>
  Three operating systems. In the first the bulk syscall always fails, the debug read
  returns a word, and the calling process has four readable bytes at address 256. In the
  second the bulk syscall transfers what is asked for. In the third it transfers two
  bytes whatever is asked for.
\<close>

definition ex_ptrace_os :: os where
  "ex_ptrace_os = \<lparr>sys_getpid = 1,
            sys_process_vm_readv = (\<lambda>pid len iovs. None),
            sys_ptrace_peektext = (\<lambda>pid addr. (578437695752307201, 0)),
            proc_memory = (\<lambda>addr. if 256 \<le> addr \<and> addr < 260 then Some 9 else None),
            fs_files = (\<lambda>file. None),
            fs_fstat_ok = (\<lambda>file. True),
            fs_mmap_ok = (\<lambda>file. True)\<rparr>"

definition ex_bulk_os :: os where
  "ex_bulk_os = \<lparr>sys_getpid = 1,
            sys_process_vm_readv = (\<lambda>pid len iovs. Some (replicate (unat len) 5)),
            sys_ptrace_peektext = (\<lambda>pid addr. (578437695752307201, 0)),
            proc_memory = (\<lambda>addr. None),
            fs_files = (\<lambda>file. None),
            fs_fstat_ok = (\<lambda>file. True),
            fs_mmap_ok = (\<lambda>file. True)\<rparr>"

definition ex_partial_os :: os where
  "ex_partial_os = \<lparr>sys_getpid = 1,
            sys_process_vm_readv = (\<lambda>pid len iovs. Some [5, 5]),
            sys_ptrace_peektext = (\<lambda>pid addr. (0, 0)),
            proc_memory = (\<lambda>addr. None),
            fs_files = (\<lambda>file. None),
            fs_fstat_ok = (\<lambda>file. True),
            fs_mmap_ok = (\<lambda>file. True)\<rparr>"

text \<open>
  A remote-process memory that has not read yet.
\<close>

definition ex_remote :: MemoryRemote where
  "ex_remote = \<lparr>remote_pid = 7, read_redirect_func = None\<rparr>"

text \<open>
  A wrapped source for the cache: a range set with one range over the whole page 0 and
  one range over the first five bytes of page 1, so that page 0 can be filled and page 1
  cannot.
\<close>

definition ex_page_buffer :: MemoryBuffer where
  "ex_page_buffer = \<lparr>buf_raw = replicate 4096 1, buf_size = 4096\<rparr>"

definition ex_tail_buffer :: MemoryBuffer where
  "ex_tail_buffer = \<lparr>buf_raw = replicate 5 2, buf_size = 5\<rparr>"

definition ex_paged_ranges :: "MemoryBuffer MemoryRanges" where
  "ex_paged_ranges =
     [(4096, \<lparr>range_memory = ex_page_buffer, range_begin = 0, range_length = 4096,
              range_offset = 0\<rparr>),
      (4101, \<lparr>range_memory = ex_tail_buffer, range_begin = 0, range_length = 5,
              range_offset = 4096\<rparr>)]"

text \<open>
  An operating system that answers like \<open>ex_partial_os\<close> except where a descriptor of
  the bulk syscall wraps around the end of the address space; and an operating system
  whose bulk syscall always fails and in which every address of the calling process is
  readable and holds its own low byte.
\<close>

definition ex_wrapping_os :: os where
  "ex_wrapping_os = ex_partial_os\<lparr>sys_process_vm_readv :=
     (\<lambda>pid len iovs. if \<forall>(b, l)\<in>set iovs. unat b + unat l < 2 ^ 64 then Some [5, 5] else Some [6])\<rparr>"

definition ex_flat_os :: os where
  "ex_flat_os = \<lparr>sys_getpid = 1,
            sys_process_vm_readv = (\<lambda>pid len iovs. None),
            sys_ptrace_peektext = (\<lambda>pid addr. (- 1, 1)),
            proc_memory = (\<lambda>addr. Some (ucast addr)),
            fs_files = (\<lambda>file. None),
            fs_fstat_ok = (\<lambda>file. True),
            fs_mmap_ok = (\<lambda>file. True)\<rparr>"

text \<open>
  A wrapped source for the cache that holds the last page of the address space and
  page 0: a range set with one range over each.
\<close>

definition ex_zero_page_buffer :: MemoryBuffer where
  "ex_zero_page_buffer = \<lparr>buf_raw = replicate 4096 2, buf_size = 4096\<rparr>"

definition ex_wrap_ranges :: "MemoryBuffer MemoryRanges" where
  "ex_wrap_ranges =
     MemoryRanges_Insert
       (MemoryRanges_Insert []
          \<lparr>range_memory = ex_page_buffer, range_begin = 0, range_length = 4096,
            range_offset = 18446744073709547520\<rparr>)
       \<lparr>range_memory = ex_zero_page_buffer, range_begin = 0, range_length = 4096, range_offset = 0\<rparr>"

text \<open>
  An offline buffer that stands for the addresses 16 to 19.
\<close>

definition ex_offline_buffer :: MemoryOfflineBuffer where
  "ex_offline_buffer = \<lparr>offbuf_data = [1, 2, 3, 4], offbuf_start = 16, offbuf_end = 20\<rparr>"

section \<open>Properties of buffer and file reads\<close>

lemma unat_min_word: "unat (min (a::u64) b) = min (unat a) (unat b)"
  by (simp add: min_def word_le_nat_alt)

lemma MemoryBuffer_Read_count:
  "fst (MemoryBuffer_Read m addr sz) =
     (if addr < buf_size m then min sz (buf_size m - addr) else 0)"
  by (auto simp: MemoryBuffer_Read_def Let_def min_def)

lemma MemoryBuffer_Read_data:
  "snd (MemoryBuffer_Read m addr sz) =
     take (unat (fst (MemoryBuffer_Read m addr sz))) (drop (unat addr) (buf_raw m))"
  by (simp add: MemoryBuffer_Read_def Let_def)

lemma MemoryBuffer_Read_length:
  assumes "MemoryBuffer_valid m"
  shows "length (snd (MemoryBuffer_Read m addr sz)) = unat (fst (MemoryBuffer_Read m addr sz))"
proof (cases "addr < buf_size m")
  case True
  then have "unat (buf_size m - addr) = unat (buf_size m) - unat addr"
    by (simp add: unat_sub word_le_less_eq)
  with True assms show ?thesis
    by (simp add: MemoryBuffer_Read_def Let_def MemoryBuffer_valid_def unat_min_word not_le
        min.commute)
next
  case False
  then show ?thesis by (simp add: MemoryBuffer_Read_def not_less)
qed

lemma MemoryFileAtOffset_Read_count:
  "fst (MemoryFileAtOffset_Read m addr sz) =
     (if addr < file_size m then min sz (file_size m - addr) else 0)"
  by (auto simp: MemoryFileAtOffset_Read_def Let_def min_def)

lemma MemoryFileAtOffset_Read_data:
  "snd (MemoryFileAtOffset_Read m addr sz) =
     take (unat (fst (MemoryFileAtOffset_Read m addr sz))) (drop (unat addr) (file_data m))"
  by (simp add: MemoryFileAtOffset_Read_def Let_def)

lemma MemoryFileAtOffset_Read_length:
  assumes "MemoryFileAtOffset_valid m"
  shows "length (snd (MemoryFileAtOffset_Read m addr sz)) =
         unat (fst (MemoryFileAtOffset_Read m addr sz))"
proof (cases "addr < file_size m")
  case True
  then have "unat (file_size m - addr) = unat (file_size m) - unat addr"
    by (simp add: unat_sub word_le_less_eq)
  with True assms show ?thesis
    by (simp add: MemoryFileAtOffset_Read_def Let_def MemoryFileAtOffset_valid_def unat_min_word
        not_le min.commute)
next
  case False
  then show ?thesis by (simp add: MemoryFileAtOffset_Read_def not_less)
qed

text \<open>
  C1. For a buffer-backed or file-backed memory of total size \<open>N\<close>, a read at
  \<open>addr < N\<close> returns \<open>min sz (N - addr)\<close>, a read at \<open>addr \<ge> N\<close> returns \<open>0\<close>, and
  the bytes stored in the destination are the source bytes at
  \<open>[addr, addr + copied)\<close>: exactly \<open>copied\<close> of them.
\<close>

theorem buffer_file_Read_exact:
  "(MemoryBuffer_valid b \<longrightarrow>
      fst (MemoryBuffer_Read b addr sz) =
        (if addr < buf_size b then min sz (buf_size b - addr) else 0) \<and>
      snd (MemoryBuffer_Read b addr sz) =
        take (unat (fst (MemoryBuffer_Read b addr sz))) (drop (unat addr) (buf_raw b)) \<and>
      length (snd (MemoryBuffer_Read b addr sz)) = unat (fst (MemoryBuffer_Read b addr sz)))
   \<and>
   (MemoryFileAtOffset_valid f \<longrightarrow>
      fst (MemoryFileAtOffset_Read f addr sz) =
        (if addr < file_size f then min sz (file_size f - addr) else 0) \<and>
      snd (MemoryFileAtOffset_Read f addr sz) =
        take (unat (fst (MemoryFileAtOffset_Read f addr sz))) (drop (unat addr) (file_data f)) \<and>
      length (snd (MemoryFileAtOffset_Read f addr sz)) =
        unat (fst (MemoryFileAtOffset_Read f addr sz)))"
  using MemoryBuffer_Read_count MemoryBuffer_Read_data MemoryBuffer_Read_length
    MemoryFileAtOffset_Read_count MemoryFileAtOffset_Read_data MemoryFileAtOffset_Read_length
  by blast

text \<open>The theorem at the buffer \<^verbatim>\<open>"abc\\0"\<close> and at a file of five bytes.\<close>

theorem buffer_file_Read_exact_witness:
  "MemoryBuffer_valid ex_string_buffer \<and> MemoryFileAtOffset_valid ex_file \<and>
   MemoryBuffer_Read ex_string_buffer 1 10 = (3, [98, 99, 0]) \<and>
   MemoryFileAtOffset_Read ex_file 2 2 = (2, [3, 4])"
proof -
  have vb: "MemoryBuffer_valid ex_string_buffer"
    by (simp add: MemoryBuffer_valid_def ex_string_buffer_def)
  have vf: "MemoryFileAtOffset_valid ex_file"
    by (simp add: MemoryFileAtOffset_valid_def ex_file_def)
  from buffer_file_Read_exact [of ex_string_buffer 1 10 ex_file] vb
  have b1: "fst (MemoryBuffer_Read ex_string_buffer 1 10) =
              (if 1 < buf_size ex_string_buffer then min 10 (buf_size ex_string_buffer - 1) else 0)"
    and b2: "snd (MemoryBuffer_Read ex_string_buffer 1 10) =
              take (unat (fst (MemoryBuffer_Read ex_string_buffer 1 10)))
                (drop (unat (1 :: u64)) (buf_raw ex_string_buffer))"
    by blast+
  from buffer_file_Read_exact [of ex_string_buffer 2 2 ex_file] vf
  have f1: "fst (MemoryFileAtOffset_Read ex_file 2 2) =
              (if 2 < file_size ex_file then min 2 (file_size ex_file - 2) else 0)"
    and f2: "snd (MemoryFileAtOffset_Read ex_file 2 2) =
              take (unat (fst (MemoryFileAtOffset_Read ex_file 2 2)))
                (drop (unat (2 :: u64)) (file_data ex_file))"
    by blast+
  have b1': "fst (MemoryBuffer_Read ex_string_buffer 1 10) = 3"
    unfolding b1 by (simp add: ex_string_buffer_def)
  have b2': "snd (MemoryBuffer_Read ex_string_buffer 1 10) = [98, 99, 0]"
    unfolding b2 b1' by (simp add: ex_string_buffer_def)
  have f1': "fst (MemoryFileAtOffset_Read ex_file 2 2) = 2"
    unfolding f1 by (simp add: ex_file_def)
  have f2': "snd (MemoryFileAtOffset_Read ex_file 2 2) = [3, 4]"
    unfolding f2 f1' by (simp add: ex_file_def)
  from vb vf b1' b2' f1' f2' show ?thesis by (simp add: prod_eq_iff)
qed

section \<open>\<^verbatim>\<open>ReadString\<close> on a memory with known contents\<close>

lemma content_at_read:
  assumes "content_at rd I addr mem" "I s" "unat offset \<le> length mem"
  obtains s' n data where "rd s (addr + offset) sz = (s', n, data)" and "I s'" and "n \<le> sz"
    and "length data = unat n" and "data = take (unat n) (drop (unat offset) mem)"
    and "unat offset < length mem \<Longrightarrow> sz \<noteq> 0 \<Longrightarrow> n \<noteq> 0"
proof -
  have eq: "addr + of_nat (unat offset) = addr + offset" by simp
  obtain s' n data where r: "rd s (addr + offset) sz = (s', n, data)"
    by (cases "rd s (addr + offset) sz") auto
  have pre: "I s \<and> unat offset \<le> length mem" using assms(2,3) by simp
  note c = assms(1) [unfolded content_at_def, rule_format, of s "unat offset" sz, OF pre,
      unfolded eq r prod.case]
  from c that [OF r] show ?thesis by blast
qed

lemma unat_u64_less: "unat (w :: u64) < 2 ^ 64"
  by (rule order_less_le_trans [OF unsigned_less]) simp

lemma unat_add_u64: "unat a + unat b < 2 ^ 64 \<Longrightarrow> unat (a + b :: u64) = unat a + unat b"
  by (simp add: unat_add_lem [THEN iffD1])

lemma unat_of_nat_min: "unat (of_nat (min (unat (sz::u64)) n) :: u64) = min (unat sz) n"
  by (rule le_unat_uoi [of _ sz]) simp

lemma chunk_size:
  assumes "offset < (max_read::u64)"
  shows "0 < unat (min 256 (max_read - offset))"
    and "unat (min 256 (max_read - offset)) = min 256 (unat max_read - unat offset)"
proof -
  from assms have "unat (max_read - offset) = unat max_read - unat offset"
    by (simp add: unat_sub word_le_less_eq)
  then show "unat (min 256 (max_read - offset)) = min 256 (unat max_read - unat offset)"
    by (simp add: unat_min_word)
  with assms show "0 < unat (min 256 (max_read - offset))"
    by (simp add: word_less_nat_alt)
qed

lemma strnlen_no_zero:
  assumes "0 \<notin> set buffer" "length buffer = unat n"
  shows "strnlen buffer n = n"
proof -
  have tw: "takeWhile (\<lambda>c. c \<noteq> 0) buffer = buffer"
    using assms(1) by (auto intro!: takeWhile_eq_all_conv[THEN iffD2])
  have tk: "take (unat n) buffer = buffer" using assms(2) by simp
  show ?thesis unfolding strnlen_def tk tw using assms(2) by simp
qed

lemma ReadString_loop_no_terminator:
  assumes sv: "content_at rd I addr mem"
    and nz: "0 \<notin> set (take (unat max_read) mem)"
  shows "I s \<Longrightarrow> unat offset \<le> length mem \<Longrightarrow>
         \<exists>s'. ReadString_loop rd addr max_read s offset dst = Some (s', False, dst)"
proof (induction "unat max_read - unat offset" arbitrary: s offset rule: less_induct)
  case less
  show ?case
  proof (cases "offset < max_read")
    case False
    then show ?thesis by (subst ReadString_loop.simps) simp
  next
    case True
    let ?read = "min 256 (max_read - offset)"
    let ?k = "unat offset"
    from chunk_size [OF True] have rpos: "0 < unat ?read"
      and req: "unat ?read = min 256 (unat max_read - ?k)" by auto
    from content_at_read [OF sv less.prems(1) less.prems(2), of ?read]
    obtain s1 size1 buffer where r: "rd s (addr + offset) ?read = (s1, size1, buffer)"
      and I1: "I s1" and cle: "size1 \<le> ?read" and lbuf: "length buffer = unat size1"
      and buf: "buffer = take (unat size1) (drop ?k mem)" by metis
    have sle: "unat size1 \<le> unat ?read" using cle by (simp add: word_le_nat_alt)
    have "set buffer \<subseteq> set (take (unat max_read) mem)"
    proof -
      have "buffer = drop ?k (take (?k + unat size1) mem)"
        unfolding buf by (simp add: take_drop add.commute)
      moreover have "unat ?read \<le> unat max_read - ?k" unfolding req by (rule min.cobounded2)
      then have "?k + unat size1 \<le> unat max_read" using sle True
        by (simp add: word_less_nat_alt)
      then have "set (take (?k + unat size1) mem) \<subseteq> set (take (unat max_read) mem)"
        by (simp add: set_take_subset_set_take)
      ultimately show ?thesis using set_drop_subset by fastforce
    qed
    with nz have bnz: "0 \<notin> set buffer" by blast
    have sn: "strnlen buffer size1 = size1" by (rule strnlen_no_zero [OF bnz lbuf])
    show ?thesis
    proof (cases "size1 = 0")
      case True
      with \<open>offset < max_read\<close> r show ?thesis
        by (subst ReadString_loop.simps) (simp add: Let_def)
    next
      case False
      then have spos: "0 < unat size1" by (simp add: unat_gt_0)
      have "unat ?read \<le> unat max_read - ?k" unfolding req by (rule min.cobounded2)
      with sle have sle': "unat size1 \<le> unat max_read - ?k" by simp
      have lt: "?k < unat max_read" using True by (simp add: word_less_nat_alt)
      have "?k + unat size1 < 2 ^ 64"
        using sle' lt unat_u64_less [of max_read] by linarith
      then have uadd: "unat (offset + size1) = ?k + unat size1"
        by (rule unat_add_u64)
      have "unat size1 \<le> length mem - ?k" using lbuf [unfolded buf] by simp
      then have le': "unat (offset + size1) \<le> length mem" using uadd less.prems(2) by linarith
      have dec: "unat max_read - unat (offset + size1) < unat max_read - ?k"
        using uadd spos lt by linarith
      from less.hyps [OF dec I1 le']
      obtain s' where "ReadString_loop rd addr max_read s1 (offset + size1) dst = Some (s', False, dst)"
        by blast
      with True False r sn show ?thesis
        by (subst ReadString_loop.simps) (simp add: Let_def)
    qed
  qed
qed

lemma strnlen_found:
  assumes "0 \<notin> set pre" "length (pre @ 0 # post) = unat n"
  shows "strnlen (pre @ 0 # post) n = of_nat (length pre)"
proof -
  have tw: "takeWhile (\<lambda>c. c \<noteq> 0) (pre @ 0 # post) = pre"
    using assms(1) by (subst takeWhile_append2) auto
  have tk: "take (unat n) (pre @ 0 # post) = pre @ 0 # post" using assms(2) by simp
  show ?thesis unfolding strnlen_def tk tw ..
qed

lemma ReadString_loop_terminated:
  assumes sv: "content_at rd I addr mem"
    and mem: "mem = str @ 0 # rest"
    and nz: "0 \<notin> set str"
    and L: "length str < unat max_read"
    and full: "\<And>s. I s \<Longrightarrow> fst (snd (rd s addr (of_nat (length str)))) = of_nat (length str)"
  shows "I s \<Longrightarrow> unat offset \<le> length str \<Longrightarrow>
         \<exists>s'. ReadString_loop rd addr max_read s offset dst = Some (s', True, str)"
proof (induction "length str - unat offset" arbitrary: s offset rule: less_induct)
  case less
  let ?read = "min 256 (max_read - offset)"
  let ?k = "unat offset"
  have lt: "offset < max_read" using less.prems(2) L by (simp add: word_less_nat_alt)
  from chunk_size [OF lt] have rpos: "0 < unat ?read"
    and req: "unat ?read = min 256 (unat max_read - ?k)" by auto
  have rne: "?read \<noteq> 0" using rpos by (simp add: unat_gt_0)
  have lmem: "length mem = length str + 1 + length rest" using mem by simp
  have kmem: "?k \<le> length mem" and kin: "?k < length mem" using less.prems(2) lmem by simp_all
  from content_at_read [OF sv less.prems(1) kmem, of ?read]
  obtain s1 size1 buffer where r: "rd s (addr + offset) ?read = (s1, size1, buffer)"
    and I1: "I s1" and cle: "size1 \<le> ?read" and lbuf: "length buffer = unat size1"
    and buf: "buffer = take (unat size1) (drop ?k mem)"
    and prog: "?k < length mem \<Longrightarrow> ?read \<noteq> 0 \<Longrightarrow> size1 \<noteq> 0" by metis
  have sne: "size1 \<noteq> 0" by (rule prog [OF kin rne])
  then have spos: "0 < unat size1" by (simp add: unat_gt_0)
  have sle: "unat size1 \<le> unat ?read" using cle by (simp add: word_le_nat_alt)
  have dr: "drop ?k mem = drop ?k str @ 0 # rest" using less.prems(2) mem by simp
  show ?case
  proof (cases "unat size1 \<le> length str - ?k")
    case True
    have bufeq: "buffer = take (unat size1) (drop ?k str)" unfolding buf using True dr by simp
    have "set buffer \<subseteq> set str" unfolding bufeq
      by (meson set_take_subset set_drop_subset subset_trans)
    with nz have bnz: "0 \<notin> set buffer" by blast
    have sn: "strnlen buffer size1 = size1" by (rule strnlen_no_zero [OF bnz lbuf])
    have "?k + unat size1 < 2 ^ 64"
      using True less.prems(2) L unat_u64_less [of max_read] by linarith
    then have uadd: "unat (offset + size1) = ?k + unat size1"
      by (rule unat_add_u64)
    have le': "unat (offset + size1) \<le> length str" using uadd True less.prems(2) by linarith
    have dec: "length str - unat (offset + size1) < length str - ?k"
      using uadd spos le' by linarith
    from less.hyps [OF dec I1 le']
    obtain s' where "ReadString_loop rd addr max_read s1 (offset + size1) dst = Some (s', True, str)"
      by blast
    with lt sne r sn show ?thesis
      by (subst ReadString_loop.simps) (simp add: Let_def)
  next
    case False
    let ?pre = "drop ?k str"
    let ?post = "take (unat size1 - length ?pre - 1) rest"
    have bufeq: "buffer = ?pre @ 0 # ?post"
    proof -
      have "unat size1 - length ?pre = Suc (unat size1 - length ?pre - 1)" using False by simp
      then show ?thesis unfolding buf dr by (simp add: take_Cons')
    qed
    have pnz: "0 \<notin> set ?pre" using nz by (meson in_set_dropD)
    have sn: "strnlen buffer size1 = of_nat (length ?pre)"
      unfolding bufeq by (rule strnlen_found [OF pnz lbuf [unfolded bufeq]])
    have lpre: "length ?pre = length str - ?k" by simp
    have lpre_lt: "length ?pre < unat size1"
      unfolding lpre using False by arith
    then have ulen: "unat (of_nat (length ?pre) :: u64) = length ?pre"
      by (intro le_unat_uoi [of _ size1]) simp
    have found: "(of_nat (length ?pre) :: u64) < size1"
      using lpre_lt ulen by (simp only: word_less_nat_alt)
    show ?thesis
    proof (cases "offset = 0")
      case True
      have "take (unat (of_nat (length ?pre) :: u64)) buffer = str"
        unfolding ulen bufeq using True by simp
      with lt sne r sn found True show ?thesis
        by (subst ReadString_loop.simps) (simp add: Let_def)
    next
      case nonzero: False
      let ?total = "offset + of_nat (length ?pre) :: u64"
      note ulen' = ulen [unfolded lpre]
      have "?k + unat (of_nat (length ?pre) :: u64) < 2 ^ 64"
        unfolding lpre ulen' using less.prems(2) L unat_u64_less [of max_read] by linarith
      then have "unat ?total = ?k + unat (of_nat (length ?pre) :: u64)"
        by (rule unat_add_u64)
      then have utot: "unat ?total = length str"
        unfolding lpre ulen' using less.prems(2) by linarith
      have tot: "?total = of_nat (length str)"
        using utot by (metis of_nat_unat ucast_id)
      from content_at_read [OF sv I1, of 0 ?total]
      obtain s2 n2 data2 where r2: "rd s1 addr ?total = (s2, n2, data2)"
        and d2: "data2 = take (unat n2) (drop (unat (0 :: u64)) mem)"
        by (metis add.right_neutral unat_0 le0)
      have "n2 = fst (snd (rd s1 addr (of_nat (length str))))" using r2 tot by simp
      then have n2: "n2 = ?total" using full [OF I1] tot by simp
      have dat: "data2 = str" unfolding d2 n2 utot mem by simp
      have rf: "ReadFully rd s1 addr ?total = (s2, True, str)"
        unfolding ReadFully_def r2 n2 dat by simp
      have "str @ drop (length str) (replicate (unat ?total) (0::byte)) = str"
        unfolding utot by simp
      with lt sne r sn found nonzero rf show ?thesis
        by (subst ReadString_loop.simps) (simp add: Let_def)
    qed
  qed
qed

lemma MemoryBuffer_serves:
  assumes "MemoryBuffer_valid m"
  shows "serves MemoryBuffer_reader (\<lambda>s. s = m) 0 (buf_raw m)"
  unfolding serves_def
proof (intro allI impI, elim conjE)
  fix s :: MemoryBuffer and k :: nat and sz :: u64
  assume s: "s = m" and k: "k \<le> length (buf_raw m)"
  from assms have len: "length (buf_raw m) = unat (buf_size m)"
    by (simp add: MemoryBuffer_valid_def)
  have uk: "unat (of_nat k :: u64) = k" using k len by (intro le_unat_uoi [of _ "buf_size m"]) simp
  show "case MemoryBuffer_reader s (0 + of_nat k) sz of
          (s', n, data) \<Rightarrow> s' = m \<and> n = of_nat (min (unat sz) (length (buf_raw m) - k)) \<and>
             data = take (unat sz) (drop k (buf_raw m))"
  proof (cases "k = length (buf_raw m)")
    case True
    then have "(of_nat k :: u64) = buf_size m" using len by simp
    with True s show ?thesis by (simp add: MemoryBuffer_reader_def MemoryBuffer_Read_def)
  next
    case False
    with k len uk have lt: "(of_nat k :: u64) < buf_size m" by (simp add: word_less_nat_alt)
    then have ub: "unat (buf_size m - of_nat k) = length (buf_raw m) - k"
      using uk len by (simp add: unat_sub word_le_less_eq)
    have um: "unat (min (buf_size m - of_nat k) sz) = min (unat sz) (length (buf_raw m) - k)"
      unfolding unat_min_word ub by (rule min.commute)
    then have cnt: "min (buf_size m - of_nat k) sz = of_nat (min (unat sz) (length (buf_raw m) - k))"
      by (metis of_nat_unat ucast_id)
    have dat: "take (unat (min (buf_size m - of_nat k) sz)) (drop k (buf_raw m)) =
               take (unat sz) (drop k (buf_raw m))"
      unfolding um by (simp add: min_def)
    from lt s cnt dat uk show ?thesis
      by (simp add: MemoryBuffer_reader_def MemoryBuffer_Read_def Let_def not_le)
  qed
qed

lemma serves_content_at:
  assumes "serves rd I addr mem"
  shows "content_at rd I addr mem"
  unfolding content_at_def
proof (intro allI impI, elim conjE)
  fix s :: 'a and k :: nat and sz :: u64
  assume I: "I s" and k: "k \<le> length mem"
  obtain s' n data where r: "rd s (addr + of_nat k) sz = (s', n, data)"
    by (cases "rd s (addr + of_nat k) sz") auto
  from assms [unfolded serves_def, rule_format, of s k sz] I k r
  have I': "I s'" and n: "n = of_nat (min (unat sz) (length mem - k))"
    and d: "data = take (unat sz) (drop k mem)" by simp_all
  have un: "unat n = min (unat sz) (length mem - k)" unfolding n by (rule unat_of_nat_min)
  have "n \<le> sz" using un by (simp add: word_le_nat_alt)
  moreover have "length data = unat n" unfolding d un by (simp add: min.commute)
  moreover have "data = take (unat n) (drop k mem)" unfolding d un by (simp add: min_def)
  moreover have "k < length mem \<and> sz \<noteq> 0 \<longrightarrow> n \<noteq> 0"
  proof
    assume "k < length mem \<and> sz \<noteq> 0"
    then have "0 < unat n" unfolding un by (simp add: unat_gt_0)
    then show "n \<noteq> 0" by (simp add: unat_gt_0)
  qed
  ultimately show "case rd s (addr + of_nat k) sz of
           (s', n, data) \<Rightarrow>
             I s' \<and> n \<le> sz \<and> length data = unat n \<and> data = take (unat n) (drop k mem) \<and>
             (k < length mem \<and> sz \<noteq> 0 \<longrightarrow> n \<noteq> 0)"
    using r I' by simp
qed

lemma serves_whole:
  assumes "serves rd I addr mem" and "I s" and "n \<le> length mem"
  shows "fst (snd (rd s addr (of_nat n))) = of_nat n"
proof -
  obtain s' c data where r: "rd s (addr + of_nat 0) (of_nat n) = (s', c, data)"
    by (cases "rd s (addr + of_nat 0) (of_nat n)") auto
  from assms(1) [unfolded serves_def, rule_format, of s 0 "of_nat n"] assms(2) r
  have c: "c = of_nat (min (unat (of_nat n :: u64)) (length mem))" by simp
  have "unat (of_nat n :: u64) \<le> n" by (simp add: unat_of_nat)
  then have "min (unat (of_nat n :: u64)) (length mem) = unat (of_nat n :: u64)"
    using assms(3) by simp
  then have "c = of_nat n" unfolding c by simp
  with r show ?thesis by simp
qed

text \<open>
  C3 (as amended). Let the memory hold, from \<open>addr\<close> on, the bytes \<open>mem\<close>: a read at
  \<open>addr + k\<close> returns bytes of \<open>mem\<close> from index \<open>k\<close> on, no more than were asked for and at
  least one where a byte is left and one is asked for. If \<open>mem\<close> starts with \<open>L\<close> non-zero
  bytes \<open>str\<close> followed by a zero byte, \<open>L < max_read\<close>, so that the terminator is among the
  first \<open>max_read\<close> bytes, and the memory returns all \<open>L\<close> bytes to one read of \<open>L\<close> bytes
  at \<open>addr\<close>, then \<^verbatim>\<open>ReadString\<close> returns true and sets the output to exactly \<open>str\<close>. If
  there is no zero byte among the first \<open>max_read\<close> bytes, it returns false and leaves the
  output as it was.
\<close>

theorem ReadString_terminated:
  assumes "content_at rd I addr mem" and "I s"
  shows "(\<forall>str rest. mem = str @ 0 # rest \<and> 0 \<notin> set str \<and> length str < unat max_read \<and>
            (\<forall>s. I s \<longrightarrow> fst (snd (rd s addr (of_nat (length str)))) = of_nat (length str)) \<longrightarrow>
            (\<exists>s'. ReadString rd s addr dst max_read = Some (s', True, str))) \<and>
         (0 \<notin> set (take (unat max_read) mem) \<longrightarrow>
            (\<exists>s'. ReadString rd s addr dst max_read = Some (s', False, dst)))"
proof (intro conjI allI impI)
  fix str rest
  assume a: "mem = str @ 0 # rest \<and> 0 \<notin> set str \<and> length str < unat max_read \<and>
            (\<forall>s. I s \<longrightarrow> fst (snd (rd s addr (of_nat (length str)))) = of_nat (length str))"
  then have mem: "mem = str @ 0 # rest" and nz: "0 \<notin> set str"
    and L: "length str < unat max_read"
    and full: "\<And>s. I s \<Longrightarrow> fst (snd (rd s addr (of_nat (length str)))) = of_nat (length str)"
    by simp_all
  show "\<exists>s'. ReadString rd s addr dst max_read = Some (s', True, str)"
    unfolding ReadString_def
    using ReadString_loop_terminated [OF assms(1) mem nz L full, of s 0 dst] assms(2)
    by simp
next
  assume "0 \<notin> set (take (unat max_read) mem)"
  then show "\<exists>s'. ReadString rd s addr dst max_read = Some (s', False, dst)"
    unfolding ReadString_def
    using ReadString_loop_no_terminator [OF assms(1), of max_read s 0 dst] assms(2)
    by simp
qed

lemma ex_string_buffer_valid: "MemoryBuffer_valid ex_string_buffer"
  by (simp add: MemoryBuffer_valid_def ex_string_buffer_def)

lemma ex_split_ranges_list:
  "ex_split_ranges =
     [(2, \<lparr>range_memory = ex_split_buffer, range_begin = 0, range_length = 2, range_offset = 0\<rparr>),
      (6, \<lparr>range_memory = ex_split_buffer, range_begin = 2, range_length = 4, range_offset = 2\<rparr>)]"
  by (simp add: ex_split_ranges_def MemoryRanges_Insert_def builtin_add_overflow_def)

lemma ex_split_ranges_content:
  "content_at (MemoryRanges_Read MemoryBuffer_reader) (\<lambda>s. s = ex_split_ranges) 0
     (buf_raw ex_split_buffer)"
  unfolding content_at_def
proof (intro allI impI, elim conjE)
  fix s :: "MemoryBuffer MemoryRanges" and k :: nat and sz :: u64
  assume s: "s = ex_split_ranges" and k: "k \<le> length (buf_raw ex_split_buffer)"
  then have "k = 0 \<or> k = 1 \<or> k = 2 \<or> k = 3 \<or> k = 4 \<or> k = 5 \<or> k = 6"
    by (simp add: ex_split_buffer_def) arith
  then show "case MemoryRanges_Read MemoryBuffer_reader s (0 + of_nat k) sz of
          (s', n, data) \<Rightarrow> s' = ex_split_ranges \<and> n \<le> sz \<and> length data = unat n \<and>
             data = take (unat n) (drop k (buf_raw ex_split_buffer)) \<and>
             (k < length (buf_raw ex_split_buffer) \<and> sz \<noteq> 0 \<longrightarrow> n \<noteq> 0)"
    unfolding s ex_split_ranges_list
    apply (elim disjE)
    apply (simp_all add: MemoryRange_Read_def MemoryBuffer_reader_def MemoryBuffer_Read_def
        builtin_add_overflow_def ex_split_buffer_def Let_def)
    apply (simp_all add: word_le_nat_alt unat_min_word word_unat_eq_iff)
    done
qed

text \<open>
  The theorem at the buffer \<^verbatim>\<open>"abc\\0"\<close>, with \<open>max_read\<close> 4 and 3, and at the range set
  \<open>ex_split_ranges\<close>, whose first range holds the string \<^verbatim>\<open>"ab"\<close> and whose second range
  starts with the terminator: the first chunk read returns two bytes of the 256 asked
  for, the terminator is found in the second chunk, and the read of two bytes at the
  start returns both.
\<close>

theorem ReadString_terminated_witness:
  "content_at MemoryBuffer_reader (\<lambda>s. s = ex_string_buffer) 0 (buf_raw ex_string_buffer) \<and>
   buf_raw ex_string_buffer = [97, 98, 99] @ 0 # [] \<and>
   fst (snd (MemoryBuffer_reader ex_string_buffer 0 (of_nat (length [97, 98, 99 :: byte])))) =
     of_nat (length [97, 98, 99 :: byte]) \<and>
   (\<exists>s'. ReadString MemoryBuffer_reader ex_string_buffer 0 [] 4 = Some (s', True, [97, 98, 99])) \<and>
   (\<exists>s'. ReadString MemoryBuffer_reader ex_string_buffer 0 [1, 2] 3 = Some (s', False, [1, 2])) \<and>
   content_at (MemoryRanges_Read MemoryBuffer_reader) (\<lambda>s. s = ex_split_ranges) 0
     (buf_raw ex_split_buffer) \<and>
   buf_raw ex_split_buffer = [97, 98] @ 0 # [1, 2, 3] \<and>
   fst (snd (MemoryRanges_Read MemoryBuffer_reader ex_split_ranges 0
               (of_nat (length [97, 98 :: byte])))) = of_nat (length [97, 98 :: byte]) \<and>
   (\<exists>s'. ReadString (MemoryRanges_Read MemoryBuffer_reader) ex_split_ranges 0 [] 256 =
           Some (s', True, [97, 98]))"
proof -
  note sv = MemoryBuffer_serves [OF ex_string_buffer_valid]
  note ct = serves_content_at [OF sv]
  have raw: "buf_raw ex_string_buffer = [97, 98, 99] @ 0 # []"
    by (simp add: ex_string_buffer_def)
  have full: "\<forall>s. s = ex_string_buffer \<longrightarrow>
      fst (snd (MemoryBuffer_reader s 0 (of_nat (length [97, 98, 99 :: byte])))) =
      of_nat (length [97, 98, 99 :: byte])"
    using serves_whole [OF sv refl, of 3] raw by simp
  from ReadString_terminated [OF ct refl, of 4 "[]", THEN conjunct1, rule_format,
      of "[97, 98, 99]" "[]"] raw full
  have a: "\<exists>s'. ReadString MemoryBuffer_reader ex_string_buffer 0 [] 4 = Some (s', True, [97, 98, 99])"
    by simp
  from ReadString_terminated [OF ct refl, of 3 "[1, 2]"]
  have b: "\<exists>s'. ReadString MemoryBuffer_reader ex_string_buffer 0 [1, 2] 3 = Some (s', False, [1, 2])"
    using raw by simp
  note rt = ex_split_ranges_content
  have raw2: "buf_raw ex_split_buffer = [97, 98] @ 0 # [1, 2, 3]"
    by (simp add: ex_split_buffer_def)
  have full2: "\<forall>s. s = ex_split_ranges \<longrightarrow>
      fst (snd (MemoryRanges_Read MemoryBuffer_reader s 0 (of_nat (length [97, 98 :: byte])))) =
      of_nat (length [97, 98 :: byte])"
    by (simp add: ex_split_ranges_list MemoryRange_Read_def MemoryBuffer_reader_def
        MemoryBuffer_Read_def builtin_add_overflow_def ex_split_buffer_def)
  from ReadString_terminated [OF rt refl, of 256 "[]", THEN conjunct1, rule_format,
      of "[97, 98]" "[1, 2, 3]"] raw2 full2
  have c: "\<exists>s'. ReadString (MemoryRanges_Read MemoryBuffer_reader) ex_split_ranges 0 [] 256 =
           Some (s', True, [97, 98])"
    by simp
  from ct raw full a b rt raw2 full2 c show ?thesis by blast
qed

text \<open>
  The claim C3 as stated allows \<open>L = max_read\<close> and every memory. The buffer \<^verbatim>\<open>"abc\\0"\<close>
  holds a zero-terminated sequence of length 3, and \<^verbatim>\<open>ReadString\<close> with \<open>max_read = 3\<close>
  returns false. The range set \<open>ex_cut_ranges\<close> holds the same four bytes at the addresses
  0 to 3, the first two in one range and the others in the next; the scan finds the
  terminator in the second chunk, the read of three bytes at address 0 returns two, and
  \<^verbatim>\<open>ReadString\<close> with \<open>max_read = 256\<close> returns false.
\<close>

theorem ReadString_terminated_counterexample:
  "buf_raw ex_string_buffer = [97, 98, 99] @ 0 # [] \<and> (0 :: byte) \<notin> set [97, 98, 99] \<and>
   length [97, 98, 99 :: byte] \<le> unat (3 :: u64) \<and>
   ReadString MemoryBuffer_reader ex_string_buffer 0 [] 3 = Some (ex_string_buffer, False, []) \<and>
   MemoryRanges_Read MemoryBuffer_reader ex_cut_ranges 0 2 = (ex_cut_ranges, 2, [97, 98]) \<and>
   MemoryRanges_Read MemoryBuffer_reader ex_cut_ranges 2 2 = (ex_cut_ranges, 2, [99, 0]) \<and>
   length [97, 98, 99 :: byte] < unat (256 :: u64) \<and>
   MemoryRanges_Read MemoryBuffer_reader ex_cut_ranges 0 3 = (ex_cut_ranges, 2, [97, 98]) \<and>
   ReadString (MemoryRanges_Read MemoryBuffer_reader) ex_cut_ranges 0 [] 256 =
     Some (ex_cut_ranges, False, [97, 98, 0])"
  by (simp add: ex_string_buffer_def ReadString_def ReadString_loop.simps MemoryBuffer_reader_def
      MemoryBuffer_Read_def strnlen_def ex_cut_ranges_def ex_cut_buffer_def MemoryRanges_Insert_def
      builtin_add_overflow_def ReadFully_def MemoryRange_Read_def)

section \<open>When \<^verbatim>\<open>ReadString\<close> fails\<close>

lemma scan_reaches_loop:
  assumes "scan_reaches rd addr max_read s0 st"
  shows "ReadString_loop rd addr max_read (fst st) (snd st) dst =
         ReadString_loop rd addr max_read s0 0 dst"
  using assms
proof (induction rule: scan_reaches.induct)
  case start
  show ?case by simp
next
  case (chunk s offset s1 size1 buffer)
  have "ReadString_loop rd addr max_read s offset dst =
        ReadString_loop rd addr max_read s1 (offset + size1) dst"
    using chunk.hyps(2,3,4,5) by (subst ReadString_loop.simps) (simp add: Let_def)
  with chunk.IH show ?case by simp
qed

lemma ReadString_loop_quiet:
  assumes q: "\<forall>s k n. I s \<and> k + unat n \<le> unat max_read \<longrightarrow>
        (case rd s (addr + of_nat k) n of
           (s', c, d) \<Rightarrow> I s' \<and> c \<le> n \<and> length d = unat c \<and> 0 \<notin> set d)"
  shows "I s \<Longrightarrow> \<exists>s'. ReadString_loop rd addr max_read s offset dst = Some (s', False, dst)"
proof (induction "unat max_read - unat offset" arbitrary: s offset rule: less_induct)
  case less
  show ?case
  proof (cases "offset < max_read")
    case False
    then show ?thesis by (subst ReadString_loop.simps) simp
  next
    case True
    let ?read = "min 256 (max_read - offset)"
    let ?k = "unat offset"
    from chunk_size [OF True] have req: "unat ?read = min 256 (unat max_read - ?k)" by auto
    have lt: "?k < unat max_read" using True by (simp add: word_less_nat_alt)
    have fits: "?k + unat ?read \<le> unat max_read" unfolding req using lt by linarith
    obtain s1 size1 buffer where r: "rd s (addr + offset) ?read = (s1, size1, buffer)"
      by (cases "rd s (addr + offset) ?read") auto
    from q [rule_format, of s ?k ?read] less.prems fits
    have "case rd s (addr + offset) ?read of
           (s', c, d) \<Rightarrow> I s' \<and> c \<le> ?read \<and> length d = unat c \<and> 0 \<notin> set d"
      by simp
    with r have I1: "I s1" and cle: "size1 \<le> ?read" and lb: "length buffer = unat size1"
      and bnz: "0 \<notin> set buffer" by auto
    have sn: "strnlen buffer size1 = size1" by (rule strnlen_no_zero [OF bnz lb])
    show ?thesis
    proof (cases "size1 = 0")
      case True
      with \<open>offset < max_read\<close> r show ?thesis
        by (subst ReadString_loop.simps) (simp add: Let_def)
    next
      case False
      then have spos: "0 < unat size1" by (simp add: unat_gt_0)
      have sle: "unat size1 \<le> unat ?read" using cle by (simp add: word_le_nat_alt)
      have "?k + unat size1 < 2 ^ 64"
        using sle fits unat_u64_less [of max_read] by linarith
      then have uadd: "unat (offset + size1) = ?k + unat size1" by (rule unat_add_u64)
      have dec: "unat max_read - unat (offset + size1) < unat max_read - ?k"
        using uadd spos lt by linarith
      from less.hyps [OF dec I1]
      obtain s' where "ReadString_loop rd addr max_read s1 (offset + size1) dst = Some (s', False, dst)"
        by blast
      with True False r sn show ?thesis
        by (subst ReadString_loop.simps) (simp add: Let_def)
    qed
  qed
qed

text \<open>
  C4 (as amended). \<^verbatim>\<open>ReadString\<close> returns false, with the output untouched, whenever no
  read inside the first \<open>max_read\<close> bytes delivers a zero byte (the reads keeping the
  contract of \<^verbatim>\<open>Read\<close>: at most the bytes asked for, as many as the count says), and
  whenever a chunk read of the scan returns zero bytes before a terminator has been found.
\<close>

theorem ReadString_fails:
  "((\<forall>s k n. I s \<and> k + unat n \<le> unat max_read \<longrightarrow>
        (case rd s (addr + of_nat k) n of
           (s', c, d) \<Rightarrow> I s' \<and> c \<le> n \<and> length d = unat c \<and> 0 \<notin> set d)) \<and> I s0 \<longrightarrow>
      (\<exists>s'. ReadString rd s0 addr dst max_read = Some (s', False, dst))) \<and>
   (scan_reaches rd addr max_read s0 (s, offset) \<and> offset < max_read \<and>
      rd s (addr + offset) (min 256 (max_read - offset)) = (s1, 0, buffer) \<longrightarrow>
      ReadString rd s0 addr dst max_read = Some (s1, False, dst))"
proof (intro conjI impI)
  assume "(\<forall>s k n. I s \<and> k + unat n \<le> unat max_read \<longrightarrow>
        (case rd s (addr + of_nat k) n of
           (s', c, d) \<Rightarrow> I s' \<and> c \<le> n \<and> length d = unat c \<and> 0 \<notin> set d)) \<and> I s0"
  then show "\<exists>s'. ReadString rd s0 addr dst max_read = Some (s', False, dst)"
    unfolding ReadString_def using ReadString_loop_quiet [of I max_read rd addr s0 0 dst] by blast
next
  assume a: "scan_reaches rd addr max_read s0 (s, offset) \<and> offset < max_read \<and>
      rd s (addr + offset) (min 256 (max_read - offset)) = (s1, 0, buffer)"
  then have "ReadString_loop rd addr max_read s offset dst = Some (s1, False, dst)"
    by (subst ReadString_loop.simps) (simp add: Let_def)
  with a scan_reaches_loop [of rd addr max_read s0 "(s, offset)" dst]
  show "ReadString rd s0 addr dst max_read = Some (s1, False, dst)"
    unfolding ReadString_def by simp
qed

lemma MemoryBuffer_quiet:
  assumes "MemoryBuffer_valid m" "0 \<notin> set (buf_raw m)"
  shows "\<forall>s k n. s = m \<and> k + unat n \<le> unat max_read \<longrightarrow>
        (case MemoryBuffer_reader s (addr + of_nat k) n of
           (s', c, d) \<Rightarrow> s' = m \<and> c \<le> n \<and> length d = unat c \<and> 0 \<notin> set d)"
proof (intro allI impI, elim conjE)
  fix s :: MemoryBuffer and k :: nat and n :: u64
  assume s: "s = m"
  let ?a = "addr + of_nat k"
  have c: "fst (MemoryBuffer_Read m ?a n) \<le> n"
    by (simp add: MemoryBuffer_Read_count)
  have l: "length (snd (MemoryBuffer_Read m ?a n)) = unat (fst (MemoryBuffer_Read m ?a n))"
    by (rule MemoryBuffer_Read_length [OF assms(1)])
  have "set (snd (MemoryBuffer_Read m ?a n)) \<subseteq> set (buf_raw m)"
    unfolding MemoryBuffer_Read_data by (meson set_take_subset set_drop_subset subset_trans)
  with assms(2) have z: "0 \<notin> set (snd (MemoryBuffer_Read m ?a n))" by blast
  from s c l z show "case MemoryBuffer_reader s ?a n of
           (s', c, d) \<Rightarrow> s' = m \<and> c \<le> n \<and> length d = unat c \<and> 0 \<notin> set d"
    by (simp add: MemoryBuffer_reader_def split_beta)
qed

text \<open>The theorem at a buffer of three non-zero bytes and \<open>max_read = 8\<close>.\<close>

theorem ReadString_fails_witness:
  "(\<exists>s'. ReadString MemoryBuffer_reader ex_quiet_buffer 0 [7] 8 = Some (s', False, [7])) \<and>
   scan_reaches MemoryBuffer_reader 0 8 ex_quiet_buffer (ex_quiet_buffer, 3) \<and>
   MemoryBuffer_reader ex_quiet_buffer 3 (min 256 (8 - 3)) = (ex_quiet_buffer, 0, []) \<and>
   ReadString MemoryBuffer_reader ex_quiet_buffer 0 [7] 8 = Some (ex_quiet_buffer, False, [7])"
proof -
  have v: "MemoryBuffer_valid ex_quiet_buffer" "0 \<notin> set (buf_raw ex_quiet_buffer)"
    by (simp_all add: MemoryBuffer_valid_def ex_quiet_buffer_def)
  note q = MemoryBuffer_quiet [OF v, of 8 0]
  have first: "MemoryBuffer_reader ex_quiet_buffer (0 + 0) (min 256 (8 - 0)) =
               (ex_quiet_buffer, 3, [1, 2, 3])"
    by (simp add: MemoryBuffer_reader_def MemoryBuffer_Read_def ex_quiet_buffer_def)
  have "scan_reaches MemoryBuffer_reader 0 8 ex_quiet_buffer (ex_quiet_buffer, 0 + 3)"
    using scan_reaches.chunk [of MemoryBuffer_reader 0 8 ex_quiet_buffer ex_quiet_buffer 0
        ex_quiet_buffer 3 "[1, 2, 3]"]
      scan_reaches.start [of MemoryBuffer_reader 0 8 ex_quiet_buffer] first
    by (simp add: strnlen_def)
  then have reach: "scan_reaches MemoryBuffer_reader 0 8 ex_quiet_buffer (ex_quiet_buffer, 3)"
    by simp
  have zero: "MemoryBuffer_reader ex_quiet_buffer (0 + 3) (min 256 (8 - 3)) = (ex_quiet_buffer, 0, [])"
    by (simp add: MemoryBuffer_reader_def MemoryBuffer_Read_def ex_quiet_buffer_def)
  note inst = ReadString_fails [of "\<lambda>s. s = ex_quiet_buffer" 8 MemoryBuffer_reader 0
      ex_quiet_buffer "[7]" ex_quiet_buffer 3 ex_quiet_buffer "[]"]
  from inst q have "\<exists>s'. ReadString MemoryBuffer_reader ex_quiet_buffer 0 [7] 8 = Some (s', False, [7])"
    by blast
  moreover from inst reach zero
  have "ReadString MemoryBuffer_reader ex_quiet_buffer 0 [7] 8 = Some (ex_quiet_buffer, False, [7])"
    by simp
  ultimately show ?thesis using reach zero by simp
qed

text \<open>
  The claim C4 as stated lets every short chunk fail the call. On the range set
  \<open>ex_split_ranges\<close> the first chunk read asks for 256 bytes and returns 2, with no
  terminator among them; the scan goes on behind them and the call returns true.
\<close>

theorem ReadString_short_chunk_counterexample:
  "MemoryRanges_Read MemoryBuffer_reader ex_split_ranges (0 + 0) (min 256 (256 - 0)) =
     (ex_split_ranges, 2, [97, 98]) \<and>
   (2 :: u64) < min 256 (256 - 0) \<and> (0 :: byte) \<notin> set [97, 98] \<and>
   ReadString (MemoryRanges_Read MemoryBuffer_reader) ex_split_ranges 0 [] 256 =
     Some (ex_split_ranges, True, [97, 98])"
  by (simp add: ex_split_ranges_def ex_split_buffer_def MemoryRanges_Insert_def
      builtin_add_overflow_def ReadString_def ReadString_loop.simps ReadFully_def
      MemoryRange_Read_def MemoryBuffer_reader_def MemoryBuffer_Read_def strnlen_def)

section \<open>Range memory\<close>

lemma MemoryRange_Read_outside:
  assumes "addr < range_offset r \<or> unat (range_offset r) + unat (range_length r) \<le> unat addr"
  shows "MemoryRange_Read rd r addr sz = (r, 0, [])"
proof (cases "addr < range_offset r")
  case True
  then show ?thesis by (simp add: MemoryRange_Read_def)
next
  case False
  then have le: "range_offset r \<le> addr" by simp
  then have "unat (addr - range_offset r) = unat addr - unat (range_offset r)"
    by (rule unat_sub)
  with assms False have "range_length r \<le> addr - range_offset r"
    by (simp add: word_le_nat_alt)
  with False show ?thesis by (simp add: MemoryRange_Read_def Let_def)
qed

lemma MemoryRange_Read_inside:
  assumes le: "range_offset r \<le> addr"
    and lt: "unat addr < unat (range_offset r) + unat (range_length r)"
  shows "MemoryRange_Read rd r addr sz =
           (if builtin_add_overflow (addr - range_offset r) (range_begin r) then (r, 0, [])
            else case rd (range_memory r) (addr - range_offset r + range_begin r)
                        (min sz (range_length r - (addr - range_offset r))) of
                   (m', n, data) \<Rightarrow> (r\<lparr>range_memory := m'\<rparr>, n, data))"
    and "unat (min sz (range_length r - (addr - range_offset r))) =
           min (unat sz) (unat (range_offset r) + unat (range_length r) - unat addr)"
    and "\<not> builtin_add_overflow (addr - range_offset r) (range_begin r) \<Longrightarrow>
           unat (addr - range_offset r + range_begin r) =
             unat addr - unat (range_offset r) + unat (range_begin r)"
proof -
  have ro: "unat (addr - range_offset r) = unat addr - unat (range_offset r)"
    using le by (rule unat_sub)
  have "unat (range_offset r) \<le> unat addr" using le by (simp add: word_le_nat_alt)
  with lt ro have inw: "addr - range_offset r < range_length r"
    unfolding word_less_nat_alt by linarith
  from le inw show "MemoryRange_Read rd r addr sz =
           (if builtin_add_overflow (addr - range_offset r) (range_begin r) then (r, 0, [])
            else case rd (range_memory r) (addr - range_offset r + range_begin r)
                        (min sz (range_length r - (addr - range_offset r))) of
                   (m', n, data) \<Rightarrow> (r\<lparr>range_memory := m'\<rparr>, n, data))"
    by (simp add: MemoryRange_Read_def Let_def not_less [symmetric])
  have "unat (range_length r - (addr - range_offset r)) =
        unat (range_length r) - unat (addr - range_offset r)"
    using inw by (simp add: unat_sub word_le_less_eq)
  then show "unat (min sz (range_length r - (addr - range_offset r))) =
           min (unat sz) (unat (range_offset r) + unat (range_length r) - unat addr)"
    unfolding unat_min_word ro using le by (simp add: word_le_nat_alt)
  assume "\<not> builtin_add_overflow (addr - range_offset r) (range_begin r)"
  then have "unat (addr - range_offset r) + unat (range_begin r) < 2 ^ 64"
    by (simp add: builtin_add_overflow_def)
  then show "unat (addr - range_offset r + range_begin r) =
             unat addr - unat (range_offset r) + unat (range_begin r)"
    unfolding ro [symmetric] by (rule unat_add_u64)
qed

text \<open>
  C5. A range memory with the window \<open>(begin, length, offset)\<close> returns 0 for
  \<open>addr < offset\<close> and for \<open>addr \<ge> offset + length\<close> (the sum taken in the natural numbers).
  For \<open>addr\<close> inside the window the requested size is clamped to the
  \<open>offset + length - addr\<close> bytes left in the window; the translation \<open>addr - offset + begin\<close>
  is checked for overflow, with result 0 on overflow; otherwise the result is the
  underlying memory's read at the translated address with the clamped size.
\<close>

theorem MemoryRange_Read_window:
  "(addr < range_offset r \<or> unat (range_offset r) + unat (range_length r) \<le> unat addr \<longrightarrow>
      MemoryRange_Read rd r addr sz = (r, 0, [])) \<and>
   (range_offset r \<le> addr \<and> unat addr < unat (range_offset r) + unat (range_length r) \<longrightarrow>
      unat (min sz (range_length r - (addr - range_offset r))) =
        min (unat sz) (unat (range_offset r) + unat (range_length r) - unat addr) \<and>
      (builtin_add_overflow (addr - range_offset r) (range_begin r) \<longrightarrow>
         MemoryRange_Read rd r addr sz = (r, 0, [])) \<and>
      (\<not> builtin_add_overflow (addr - range_offset r) (range_begin r) \<longrightarrow>
         unat (addr - range_offset r + range_begin r) =
           unat addr - unat (range_offset r) + unat (range_begin r) \<and>
         MemoryRange_Read rd r addr sz =
           (case rd (range_memory r) (addr - range_offset r + range_begin r)
                   (min sz (range_length r - (addr - range_offset r))) of
              (m', n, data) \<Rightarrow> (r\<lparr>range_memory := m'\<rparr>, n, data))))"
proof (intro conjI impI)
  assume "addr < range_offset r \<or> unat (range_offset r) + unat (range_length r) \<le> unat addr"
  then show "MemoryRange_Read rd r addr sz = (r, 0, [])" by (rule MemoryRange_Read_outside)
next
  assume "range_offset r \<le> addr \<and> unat addr < unat (range_offset r) + unat (range_length r)"
  then have w: "range_offset r \<le> addr" "unat addr < unat (range_offset r) + unat (range_length r)"
    by simp_all
  note ins = MemoryRange_Read_inside [OF w]
  show "unat (min sz (range_length r - (addr - range_offset r))) =
        min (unat sz) (unat (range_offset r) + unat (range_length r) - unat addr)"
    by (rule ins(2))
  {
    assume "builtin_add_overflow (addr - range_offset r) (range_begin r)"
    then show "MemoryRange_Read rd r addr sz = (r, 0, [])" by (simp add: ins(1))
  }
  {
    assume n: "\<not> builtin_add_overflow (addr - range_offset r) (range_begin r)"
    show "unat (addr - range_offset r + range_begin r) =
           unat addr - unat (range_offset r) + unat (range_begin r)"
      by (rule ins(3) [OF n])
    show "MemoryRange_Read rd r addr sz =
           (case rd (range_memory r) (addr - range_offset r + range_begin r)
                   (min sz (range_length r - (addr - range_offset r))) of
              (m', n, data) \<Rightarrow> (r\<lparr>range_memory := m'\<rparr>, n, data))"
      using n by (simp add: ins(1))
  }
qed

text \<open>
  The theorem at the two example windows: reads below, behind and inside the first, and a
  read inside the second, whose translation overflows.
\<close>

theorem MemoryRange_Read_window_witness:
  "MemoryRange_Read MemoryBuffer_reader ex_window 99 10 = (ex_window, 0, []) \<and>
   MemoryRange_Read MemoryBuffer_reader ex_window 104 10 = (ex_window, 0, []) \<and>
   MemoryRange_Read MemoryBuffer_reader ex_window 101 10 = (ex_window, 3, [1, 2, 3]) \<and>
   MemoryBuffer_reader ex_split_buffer (101 - 100 + 2) (min 10 (4 - (101 - 100))) =
     (ex_split_buffer, 3, [1, 2, 3]) \<and>
   builtin_add_overflow (101 - range_offset ex_window_far) (range_begin ex_window_far) \<and>
   MemoryRange_Read MemoryBuffer_reader ex_window_far 101 10 = (ex_window_far, 0, [])"
proof -
  have rd: "MemoryBuffer_reader ex_split_buffer (101 - 100 + 2) (min 10 (4 - (101 - 100))) =
     (ex_split_buffer, 3, [1, 2, 3])"
    by (simp add: MemoryBuffer_reader_def MemoryBuffer_Read_def ex_split_buffer_def)
  have ov: "builtin_add_overflow (101 - range_offset ex_window_far) (range_begin ex_window_far)"
    by (simp add: builtin_add_overflow_def ex_window_far_def)
  have nov: "\<not> builtin_add_overflow (101 - range_offset ex_window) (range_begin ex_window)"
    by (simp add: builtin_add_overflow_def ex_window_def)
  have f: "range_offset ex_window = 100" "range_length ex_window = 4" "range_begin ex_window = 2"
    "range_memory ex_window = ex_split_buffer"
    "range_offset ex_window_far = 100" "range_length ex_window_far = 4"
    by (simp_all add: ex_window_def ex_window_far_def)
  from MemoryRange_Read_window [of 99 ex_window MemoryBuffer_reader 10]
  have a: "MemoryRange_Read MemoryBuffer_reader ex_window 99 10 = (ex_window, 0, [])"
    by (simp add: f)
  from MemoryRange_Read_window [of 104 ex_window MemoryBuffer_reader 10]
  have b: "MemoryRange_Read MemoryBuffer_reader ex_window 104 10 = (ex_window, 0, [])"
    by (simp add: f)
  from MemoryRange_Read_window [of 101 ex_window MemoryBuffer_reader 10] nov
  have "MemoryRange_Read MemoryBuffer_reader ex_window 101 10 =
        (case MemoryBuffer_reader ex_split_buffer (101 - 100 + 2) (min 10 (4 - (101 - 100))) of
              (m', n, data) \<Rightarrow> (ex_window\<lparr>range_memory := m'\<rparr>, n, data))"
    by (simp add: f)
  then have c: "MemoryRange_Read MemoryBuffer_reader ex_window 101 10 = (ex_window, 3, [1, 2, 3])"
    unfolding rd by (simp add: ex_window_def)
  from MemoryRange_Read_window [of 101 ex_window_far MemoryBuffer_reader 10] ov
  have d: "MemoryRange_Read MemoryBuffer_reader ex_window_far 101 10 = (ex_window_far, 0, [])"
    by (simp add: f)
  from a b c d rd ov show ?thesis by simp
qed

section \<open>Range-set memory\<close>

lemma multimap_emplace_split:
  assumes "sorted (map fst maps)"
  shows "\<exists>pre post. maps = pre @ post \<and> multimap_emplace k v maps = pre @ (k, v) # post \<and>
           (\<forall>e\<in>set pre. fst e \<le> k) \<and> (\<forall>e\<in>set post. k < fst e)"
  using assms
proof (induction maps)
  case Nil
  then show ?case by simp
next
  case (Cons e maps)
  obtain k' v' where e: "e = (k', v')" by (cases e)
  show ?case
  proof (cases "k < k'")
    case True
    with Cons.prems e have "\<forall>x\<in>set (e # maps). k < fst x" by fastforce
    with True e show ?thesis by (rule_tac x = "[]" in exI, rule_tac x = "e # maps" in exI) simp
  next
    case False
    from Cons.prems have "sorted (map fst maps)" by simp
    from Cons.IH [OF this] obtain pre post where
      s: "maps = pre @ post" "multimap_emplace k v maps = pre @ (k, v) # post"
        "\<forall>e\<in>set pre. fst e \<le> k" "\<forall>e\<in>set post. k < fst e" by blast
    from False have "k' \<le> k" by simp
    with False e s show ?thesis
      by (rule_tac x = "e # pre" in exI, rule_tac x = post in exI) simp
  qed
qed

lemma multimap_emplace_sorted:
  assumes "sorted (map fst maps)"
  shows "sorted (map fst (multimap_emplace k v maps))"
proof -
  from multimap_emplace_split [OF assms, of k v] obtain pre post where
    s: "maps = pre @ post" "multimap_emplace k v maps = pre @ (k, v) # post"
      "\<forall>e\<in>set pre. fst e \<le> k" "\<forall>e\<in>set post. k < fst e" by blast
  from assms s(1) have "sorted (map fst pre)" "sorted (map fst post)"
    by (simp_all add: sorted_append)
  moreover have "\<forall>x\<in>set pre. \<forall>y\<in>set post. fst x \<le> fst y"
    using s(3,4) by (meson less_imp_le order_trans)
  ultimately show ?thesis unfolding s(2) using s(3,4) by (auto simp: sorted_append less_imp_le)
qed

lemma range_key_saturates:
  "unat (if builtin_add_overflow (a :: u64) b then UINT64_MAX else a + b) =
   min (unat a + unat b) (2 ^ 64 - 1)"
proof (cases "builtin_add_overflow a b")
  case True
  then show ?thesis by (simp add: builtin_add_overflow_def UINT64_MAX_def)
next
  case False
  then have "unat a + unat b < 2 ^ 64" by (simp add: builtin_add_overflow_def)
  then have "unat (a + b) = unat a + unat b" by (rule unat_add_u64)
  with False \<open>unat a + unat b < 2 ^ 64\<close> show ?thesis by simp
qed

lemma MemoryRanges_Read_none:
  "\<forall>e\<in>set maps. fst e \<le> addr \<Longrightarrow> MemoryRanges_Read rd maps addr sz = (maps, 0, [])"
  by (induction maps) (auto simp: not_less [symmetric])

lemma MemoryRanges_Read_first:
  "\<forall>e\<in>set pre. fst e \<le> addr \<Longrightarrow> addr < k \<Longrightarrow>
   MemoryRanges_Read rd (pre @ (k, r) # post) addr sz =
     (case MemoryRange_Read rd r addr sz of (r', n, data) \<Rightarrow> (pre @ (k, r') # post, n, data))"
  by (induction pre) (auto simp: not_less [symmetric] split: prod.splits)

lemma sorted_first_is_least:
  assumes "sorted (map fst (pre @ (k, r) # post))" "\<forall>e\<in>set pre. fst e \<le> addr"
  shows "\<forall>e\<in>set (pre @ (k, r) # post). addr < fst e \<longrightarrow> k \<le> fst e"
  using assms by (auto simp: sorted_append)

text \<open>
  C6. In a range set whose entries are in key order: \<^verbatim>\<open>Insert\<close> puts the range into the
  set under the key \<open>offset + length\<close>, saturated to the largest 64-bit value, at its
  place in key order, and keeps the order. A read at \<open>addr\<close> returns 0 when no key is
  larger than \<open>addr\<close>; otherwise it is the read of the first entry with a key larger than
  \<open>addr\<close>, and no entry with a key larger than \<open>addr\<close> has a smaller key.
\<close>

theorem MemoryRanges_upper_bound:
  "sorted (map fst maps) \<longrightarrow>
     (\<exists>key pre post.
        unat key = min (unat (range_offset memory) + unat (range_length memory)) (2 ^ 64 - 1) \<and>
        maps = pre @ post \<and> MemoryRanges_Insert maps memory = pre @ (key, memory) # post \<and>
        (\<forall>e\<in>set pre. fst e \<le> key) \<and> (\<forall>e\<in>set post. key < fst e)) \<and>
     sorted (map fst (MemoryRanges_Insert maps memory)) \<and>
     ((\<forall>e\<in>set maps. fst e \<le> addr) \<longrightarrow> MemoryRanges_Read rd maps addr sz = (maps, 0, [])) \<and>
     ((\<exists>e\<in>set maps. addr < fst e) \<longrightarrow>
        (\<exists>pre k r post. maps = pre @ (k, r) # post \<and> addr < k \<and>
           (\<forall>e\<in>set maps. addr < fst e \<longrightarrow> k \<le> fst e) \<and> (\<forall>e\<in>set pre. fst e \<le> addr) \<and>
           MemoryRanges_Read rd maps addr sz =
             (case MemoryRange_Read rd r addr sz of
                (r', n, data) \<Rightarrow> (pre @ (k, r') # post, n, data))))"
proof (intro impI conjI)
  assume srt: "sorted (map fst maps)"
  let ?key = "if builtin_add_overflow (range_offset memory) (range_length memory)
              then UINT64_MAX else range_offset memory + range_length memory"
  from multimap_emplace_split [OF srt, of ?key memory] range_key_saturates
  show "\<exists>key pre post.
        unat key = min (unat (range_offset memory) + unat (range_length memory)) (2 ^ 64 - 1) \<and>
        maps = pre @ post \<and> MemoryRanges_Insert maps memory = pre @ (key, memory) # post \<and>
        (\<forall>e\<in>set pre. fst e \<le> key) \<and> (\<forall>e\<in>set post. key < fst e)"
    unfolding MemoryRanges_Insert_def Let_def by blast
  show "sorted (map fst (MemoryRanges_Insert maps memory))"
    unfolding MemoryRanges_Insert_def Let_def by (rule multimap_emplace_sorted [OF srt])
  {
    assume "\<forall>e\<in>set maps. fst e \<le> addr"
    then show "MemoryRanges_Read rd maps addr sz = (maps, 0, [])"
      by (rule MemoryRanges_Read_none)
  }
  {
    assume "\<exists>e\<in>set maps. addr < fst e"
    then have "\<exists>x\<in>set maps. \<not> fst x \<le> addr" by (simp add: not_le)
    from split_list_first_prop [OF this]
    obtain pre e post where m: "maps = pre @ e # post" and e: "\<not> fst e \<le> addr"
      and pre: "\<forall>y\<in>set pre. \<not> \<not> fst y \<le> addr" by blast
    obtain k r where kr: "e = (k, r)" by (cases e)
    from pre have pre': "\<forall>e\<in>set pre. fst e \<le> addr" by simp
    from e kr have lt: "addr < k" by (simp add: not_le)
    from srt m kr have "sorted (map fst (pre @ (k, r) # post))" by simp
    from sorted_first_is_least [OF this pre']
    have least: "\<forall>e\<in>set maps. addr < fst e \<longrightarrow> k \<le> fst e" using m kr by simp
    from MemoryRanges_Read_first [OF pre' lt, of rd r post sz] m kr pre' lt least
    show "\<exists>pre k r post. maps = pre @ (k, r) # post \<and> addr < k \<and>
           (\<forall>e\<in>set maps. addr < fst e \<longrightarrow> k \<le> fst e) \<and> (\<forall>e\<in>set pre. fst e \<le> addr) \<and>
           MemoryRanges_Read rd maps addr sz =
             (case MemoryRange_Read rd r addr sz of
                (r', n, data) \<Rightarrow> (pre @ (k, r') # post, n, data))"
      by blast
  }
qed

text \<open>
  The theorem at the ranges \<open>[0, 100)\<close> and \<open>[100, 200)\<close>: a read at 150 is the second
  range's, a read at 250 returns 0.
\<close>

theorem MemoryRanges_upper_bound_witness:
  "sorted (map fst [(200 :: u64, ex_high)]) \<and>
   MemoryRanges_Insert [(200, ex_high)] ex_low = [(100, ex_low), (200, ex_high)] \<and>
   MemoryRanges_Insert [] ex_top = [(18446744073709551615, ex_top)] \<and>
   ex_two_ranges = [(100, ex_low), (200, ex_high)] \<and>
   MemoryRanges_Read MemoryBuffer_reader ex_two_ranges 150 4 = (ex_two_ranges, 4, replicate 4 2) \<and>
   MemoryRange_Read MemoryBuffer_reader ex_high 150 4 = (ex_high, 4, replicate 4 2) \<and>
   MemoryRanges_Read MemoryBuffer_reader ex_two_ranges 250 4 = (ex_two_ranges, 0, [])"
proof -
  have two: "ex_two_ranges = [(100, ex_low), (200, ex_high)]"
    by (simp add: ex_two_ranges_def MemoryRanges_Insert_def builtin_add_overflow_def
        ex_low_def ex_high_def)
  have srt: "sorted (map fst ex_two_ranges)" unfolding two by simp
  have hi: "MemoryRange_Read MemoryBuffer_reader ex_high 150 4 = (ex_high, 4, replicate 4 2)"
    by (simp add: MemoryRange_Read_def ex_high_def builtin_add_overflow_def
        MemoryBuffer_reader_def MemoryBuffer_Read_def)
  note inst = MemoryRanges_upper_bound [of ex_two_ranges ex_top _ MemoryBuffer_reader 4]
  from inst [of 250] srt
  have far: "MemoryRanges_Read MemoryBuffer_reader ex_two_ranges 250 4 = (ex_two_ranges, 0, [])"
    unfolding two by simp
  have ex: "\<exists>e\<in>set ex_two_ranges. 150 < fst e" unfolding two by simp
  from inst [of 150] srt ex obtain pre k r post where
    d: "ex_two_ranges = pre @ (k, r) # post" "150 < k"
      "\<forall>e\<in>set ex_two_ranges. 150 < fst e \<longrightarrow> k \<le> fst e"
      "MemoryRanges_Read MemoryBuffer_reader ex_two_ranges 150 4 =
         (case MemoryRange_Read MemoryBuffer_reader r 150 4 of
            (r', n, data) \<Rightarrow> (pre @ (k, r') # post, n, data))"
    by blast
  from d(1) have "(k, r) \<in> set ex_two_ranges" by (metis in_set_conv_decomp)
  with d(2) have kr: "k = 200 \<and> r = ex_high" unfolding two by auto
  with d(1) have "pre = [(100, ex_low)] \<and> post = []"
    unfolding two by (auto simp: append_eq_Cons_conv Cons_eq_append_conv)
  with d(4) kr hi
  have near: "MemoryRanges_Read MemoryBuffer_reader ex_two_ranges 150 4 =
              (ex_two_ranges, 4, replicate 4 2)"
    unfolding two by simp
  have ins: "MemoryRanges_Insert [(200, ex_high)] ex_low = [(100, ex_low), (200, ex_high)]"
    "MemoryRanges_Insert [] ex_top = [(18446744073709551615, ex_top)]"
    by (simp_all add: MemoryRanges_Insert_def builtin_add_overflow_def ex_low_def ex_top_def
        UINT64_MAX_def)
  from two hi far near ins show ?thesis by simp
qed

section \<open>Offline snapshot memory: the header and the content\<close>

lemma and_split_word: "(x AND NOT m) + (x AND m) = (x :: u64)"
proof -
  have "(x AND NOT m) AND (x AND m) = 0" by (auto simp: bit_eq_iff bit_simps)
  then have "(x AND NOT m) + (x AND m) = (x AND NOT m) OR (x AND m)"
    by (rule disjunctive_add_eq_or)
  also have "\<dots> = x" by (auto simp: bit_eq_iff bit_simps)
  finally show ?thesis .
qed

lemma page_split:
  "unat (offset AND NOT (getpagesize - 1)) + unat (offset AND (getpagesize - 1)) = unat offset"
proof -
  let ?m = "getpagesize - 1"
  have "offset AND NOT ?m \<le> (offset AND NOT ?m) + (offset AND ?m)"
    unfolding and_split_word by (rule word_and_le2)
  then have "unat (offset AND NOT ?m) + unat (offset AND ?m) < 2 ^ 64"
    by (simp add: no_plus_overflow_unat_size word_size)
  then have "unat ((offset AND NOT ?m) + (offset AND ?m)) =
             unat (offset AND NOT ?m) + unat (offset AND ?m)"
    by (rule unat_add_u64)
  then show ?thesis unfolding and_split_word by simp
qed

lemma UINT64_MAX_not_less: "\<not> UINT64_MAX < w"
  using unat_u64_less [of w] by (simp add: UINT64_MAX_def word_less_nat_alt)

lemma MemoryFileAtOffset_Init_whole:
  assumes files: "fs_files os file = Some contents"
    and len: "length contents < 2 ^ 64"
    and init: "MemoryFileAtOffset_Init os m file offset Init_default_size = (mf, True)"
  shows "file_data mf = drop (unat offset) contents"
    and "unat (file_size mf) = length contents - unat offset"
    and "unat offset < length contents"
proof -
  let ?st = "of_nat (length contents) :: u64"
  let ?off = "offset AND (getpagesize - 1)"
  let ?al = "offset AND NOT (getpagesize - 1)"
  have ust: "unat ?st = length contents" using len by (simp add: unat_of_nat)
  from init files have lt: "offset < ?st"
    by (simp add: MemoryFileAtOffset_Init_def Let_def split: if_splits)
  then show olt: "unat offset < length contents" using ust by (simp add: word_less_nat_alt)
  have al_le: "?al \<le> offset" by (rule word_and_le2)
  then have al_st: "?al \<le> ?st" using lt by simp
  have usz: "unat (?st - ?al) = length contents - unat ?al"
    using al_st ust by (simp add: unat_sub)
  have notrunc: "\<not> (\<not> builtin_add_overflow Init_default_size ?off \<and>
                  Init_default_size + ?off < ?st - ?al)"
  proof (cases "?off = 0")
    case True
    then show ?thesis using UINT64_MAX_not_less [of "?st - ?al"]
      by (simp add: Init_default_size_def)
  next
    case False
    then have "0 < unat ?off" by (simp add: unat_gt_0)
    then have "builtin_add_overflow Init_default_size ?off"
      by (simp add: builtin_add_overflow_def Init_default_size_def UINT64_MAX_def)
    then show ?thesis by simp
  qed
  from init files have fstat: "fs_fstat_ok os file"
    by (simp add: MemoryFileAtOffset_Init_def Let_def split: if_splits)
  from init files have mmap: "fs_mmap_ok os file"
    by (simp add: MemoryFileAtOffset_Init_def Let_def split: if_splits)
  have c1: "\<not> ?st \<le> offset" using lt by simp
  have c2: "\<not> (?st < ?al \<or> ?st < offset)" using al_st lt by auto
  have "unat ?al \<le> unat offset" using al_le by (simp add: word_le_nat_alt)
  then have "0 < unat (?st - ?al)" unfolding usz using olt by simp
  then have c3: "?st - ?al \<noteq> 0" by (simp add: unat_gt_0)
  from init
  have mf: "mf = \<lparr>file_data = drop (unat ?off) (take (unat (?st - ?al)) (drop (unat ?al) contents)),
                  file_size = ?st - ?al - ?off, file_offset = ?off\<rparr>"
    unfolding MemoryFileAtOffset_Init_def MemoryFileAtOffset_Clear_def Let_def files option.case
    using fstat mmap c1 c2 c3 notrunc by (cases m) auto
  have "take (unat (?st - ?al)) (drop (unat ?al) contents) = drop (unat ?al) contents"
    unfolding usz by simp
  then have "file_data mf = drop (unat ?off) (drop (unat ?al) contents)"
    unfolding mf by simp
  then show "file_data mf = drop (unat offset) contents"
    using page_split [of offset] by (simp add: add.commute)
  have "unat ?off \<le> unat (?st - ?al)"
    unfolding usz using page_split [of offset] olt by linarith
  then have "unat (?st - ?al - ?off) = unat (?st - ?al) - unat ?off"
    by (simp add: unat_sub word_le_nat_alt)
  then show "unat (file_size mf) = length contents - unat offset"
    unfolding mf usz using page_split [of offset] by simp
qed

lemma MemoryOffline_Init_shape:
  assumes files: "fs_files os file = Some contents"
    and len: "length contents < 2 ^ 64"
    and split: "drop (unat offset) contents = header @ content"
    and hdr: "length header = 8"
    and init: "MemoryOffline_Init os m file offset = (m', True)"
  shows "\<exists>mf. offline_memory m' =
           Some \<lparr>range_memory = mf, range_begin = 8, range_length = of_nat (length content),
                  range_offset = load_u64 header\<rparr> \<and>
         file_data mf = header @ content \<and> unat (file_size mf) = 8 + length content"
proof -
  let ?m0 = "\<lparr>file_data = [], file_size = 0, file_offset = 0\<rparr>"
  obtain mf ok where fi: "MemoryFileAtOffset_Init os ?m0 file offset Init_default_size = (mf, ok)"
    by (cases "MemoryFileAtOffset_Init os ?m0 file offset Init_default_size") auto
  from init fi have ok by (simp add: MemoryOffline_Init_def split: if_splits)
  with fi have fi': "MemoryFileAtOffset_Init os ?m0 file offset Init_default_size = (mf, True)"
    by simp
  note w = MemoryFileAtOffset_Init_whole [OF files len fi']
  have dat: "file_data mf = header @ content" using w(1) split by simp
  have "length (header @ content) = length contents - unat offset"
    unfolding split [symmetric] by simp
  then have usz: "unat (file_size mf) = 8 + length content" using w(2) hdr by simp
  then have "unat (8 :: u64) \<le> unat (file_size mf)" by simp
  then have ge8: "8 \<le> file_size mf" by (simp only: word_le_nat_alt)
  then have pos: "0 < file_size mf"
    by (metis usz add_gr_0 unat_gt_0 word_gt_0 zero_less_numeral)
  have "unat (min (file_size mf) 8) = 8" unfolding unat_min_word using usz by simp
  then have m8: "min (file_size mf) 8 = 8" by (simp add: word_unat_eq_iff)
  have rf: "ReadFully MemoryFileAtOffset_reader mf 0 8 = (mf, True, header)"
    using pos m8 dat hdr
    by (simp add: ReadFully_def MemoryFileAtOffset_reader_def MemoryFileAtOffset_Read_def
        Let_def not_le [symmetric])
  have "unat (file_size mf - 8) = length content"
    using ge8 usz by (simp add: unat_sub)
  moreover have "unat (of_nat (length content) :: u64) = length content"
    using usz unat_u64_less [of "file_size mf"] by (simp add: unat_of_nat)
  ultimately have sz8: "file_size mf - 8 = of_nat (length content)"
    by (simp add: word_unat_eq_iff)
  have nsub: "\<not> builtin_sub_overflow (file_size mf) 8"
    using ge8 by (simp add: builtin_sub_overflow_def not_less)
  from init have "m' = m\<lparr>offline_memory :=
        Some \<lparr>range_memory = mf, range_begin = 8, range_length = file_size mf - 8,
               range_offset = load_u64 header\<rparr>\<rparr>"
    using nsub by (simp add: MemoryOffline_Init_def fi' rf Let_def)
  with sz8 dat usz show ?thesis by simp
qed

lemma MemoryFileAtOffset_Read_suffix:
  assumes dat: "file_data mf = header @ content"
    and usz: "unat (file_size mf) = length header + length content"
    and k: "k < length content"
    and a: "unat addr = length header + k"
    and sz: "unat sz = min n (length content - k)"
  shows "MemoryFileAtOffset_Read mf addr sz = (sz, take n (drop k content))"
proof -
  have lt: "addr < file_size mf" using a usz k by (simp add: word_less_nat_alt)
  then have "unat (file_size mf - addr) = length content - k"
    using a usz by (simp add: unat_sub word_le_less_eq)
  then have "unat (min sz (file_size mf - addr)) = unat sz"
    unfolding unat_min_word using sz by simp
  then have cnt: "min sz (file_size mf - addr) = sz" by (simp only: word_unat_eq_iff)
  have "take (unat sz) (drop (unat addr) (header @ content)) = take n (drop k content)"
    unfolding a sz by (simp add: min_def)
  with lt cnt dat show ?thesis
    using MemoryFileAtOffset_Read_count [of mf addr sz] MemoryFileAtOffset_Read_data [of mf addr sz]
    by (simp add: prod_eq_iff)
qed

text \<open>
  C7. Let the file hold, from the offset given to \<^verbatim>\<open>Init\<close>, eight header bytes that encode
  the start address \<open>S\<close> and then the \<open>C\<close> content bytes. After a successful \<^verbatim>\<open>Init\<close>, a read
  at the address \<open>S + k\<close> with \<open>k < C\<close> returns \<open>min n (C - k)\<close> bytes, the content bytes from
  index \<open>k\<close> on, and a read at an address below \<open>S\<close> or at or above \<open>S + C\<close> returns 0.
  Addresses are 64-bit values: \<open>S + k\<close> is an address when it does not exceed the 64-bit
  range, and \<open>S + C\<close> is the sum in the natural numbers.
\<close>

theorem MemoryOffline_snapshot:
  assumes files: "fs_files os file = Some contents"
    and len: "length contents < 2 ^ 64"
    and split: "drop (unat offset) contents = header @ content"
    and hdr: "length header = 8"
    and init: "MemoryOffline_Init os m file offset = (m', True)"
  shows "(\<forall>k n. k < length content \<and> unat (load_u64 header) + k < 2 ^ 64 \<longrightarrow>
            MemoryOffline_Read m' (load_u64 header + of_nat k) n =
              (of_nat (min (unat n) (length content - k)), take (unat n) (drop k content))) \<and>
         (\<forall>addr n. addr < load_u64 header \<or>
                   unat (load_u64 header) + length content \<le> unat addr \<longrightarrow>
            MemoryOffline_Read m' addr n = (0, []))"
proof -
  let ?S = "load_u64 header"
  let ?C = "length content"
  from MemoryOffline_Init_shape [OF files len split hdr init] obtain mf where
    om: "offline_memory m' = Some \<lparr>range_memory = mf, range_begin = 8,
            range_length = of_nat ?C, range_offset = ?S\<rparr>"
    and dat: "file_data mf = header @ content"
    and usz: "unat (file_size mf) = 8 + ?C" by blast
  let ?r = "\<lparr>range_memory = mf, range_begin = 8, range_length = of_nat ?C :: u64,
             range_offset = ?S\<rparr>"
  have uC: "unat (of_nat ?C :: u64) = ?C"
    using usz unat_u64_less [of "file_size mf"] by (simp add: unat_of_nat)
  show ?thesis
  proof (intro conjI allI impI)
    fix k n
    assume "k < ?C \<and> unat ?S + k < 2 ^ 64"
    then have k: "k < ?C" and nowrap: "unat ?S + k < 2 ^ 64" by simp_all
    let ?addr = "?S + of_nat k"
    have uk: "unat (of_nat k :: u64) = k" using nowrap by (simp add: unat_of_nat)
    have ua: "unat ?addr = unat ?S + k" using unat_add_u64 [of ?S "of_nat k"] uk nowrap by simp
    have le: "range_offset ?r \<le> ?addr" using ua by (simp add: word_le_nat_alt)
    have lt: "unat ?addr < unat (range_offset ?r) + unat (range_length ?r)"
      using ua uC k by simp
    note ins1 = MemoryRange_Read_inside(1) [OF le lt, of MemoryFileAtOffset_reader n]
    note ins2 = MemoryRange_Read_inside(2) [OF le lt, of n]
    note ins3 = MemoryRange_Read_inside(3) [OF le lt]
    have ro: "?addr - ?S = of_nat k" by simp
    have nov: "\<not> builtin_add_overflow (of_nat k) (8 :: u64)"
      using uk k usz unat_u64_less [of "file_size mf"] by (simp add: builtin_add_overflow_def)
    let ?sz = "min n (of_nat ?C - of_nat k) :: u64"
    have usz2: "unat ?sz = min (unat n) (?C - k)" using ins2 ua uC by (simp add: ro)
    have ua2: "unat (of_nat k + 8 :: u64) = length header + k"
      using ins3 nov ua hdr by (simp add: ro)
    have "MemoryFileAtOffset_Read mf (of_nat k + 8) ?sz = (?sz, take (unat n) (drop k content))"
      by (rule MemoryFileAtOffset_Read_suffix [OF dat _ k ua2 usz2]) (use usz hdr in simp)
    moreover have "?sz = of_nat (min (unat n) (?C - k))"
      using usz2 by (metis of_nat_unat ucast_id)
    ultimately show "MemoryOffline_Read m' ?addr n =
              (of_nat (min (unat n) (?C - k)), take (unat n) (drop k content))"
      using ins1 nov
      by (simp add: MemoryOffline_Read_def om ro MemoryFileAtOffset_reader_def)
  next
    fix addr n
    assume "addr < ?S \<or> unat ?S + ?C \<le> unat addr"
    then have "addr < range_offset ?r \<or>
               unat (range_offset ?r) + unat (range_length ?r) \<le> unat addr"
      using uC by simp
    from MemoryRange_Read_outside [OF this, of MemoryFileAtOffset_reader n]
    show "MemoryOffline_Read m' addr n = (0, [])"
      by (simp add: MemoryOffline_Read_def om)
  qed
qed

text \<open>
  The theorem at the snapshot of the spec: start address \<open>0x1000\<close> and 100 content bytes.
\<close>

theorem MemoryOffline_snapshot_witness:
  "fs_files ex_os ''snapshot'' = Some ([0, 16, 0, 0, 0, 0, 0, 0] @ replicate 50 1 @ replicate 50 2) \<and>
   MemoryOffline_Init ex_os \<lparr>offline_memory = None\<rparr> ''snapshot'' 0 = (ex_offline, True) \<and>
   load_u64 [0, 16, 0, 0, 0, 0, 0, 0] = 4096 \<and>
   MemoryOffline_Read ex_offline (4096 + 50) 10 = (10, replicate 10 2) \<and>
   MemoryOffline_Read ex_offline (4096 + 45) 10 = (10, replicate 5 1 @ replicate 5 2) \<and>
   MemoryOffline_Read ex_offline (4096 + 95) 10 = (5, replicate 5 2) \<and>
   MemoryOffline_Read ex_offline 4095 10 = (0, []) \<and>
   MemoryOffline_Read ex_offline 8192 10 = (0, [])"
proof -
  let ?header = "[0, 16, 0, 0, 0, 0, 0, 0] :: byte list"
  let ?content = "replicate 50 1 @ replicate 50 2 :: byte list"
  have files: "fs_files ex_os ''snapshot'' = Some ex_snapshot" by (simp add: ex_os_def)
  have len: "length ex_snapshot < 2 ^ 64" by (simp add: ex_snapshot_def)
  have split: "drop (unat (0 :: u64)) ex_snapshot = ?header @ ?content"
    by (simp add: ex_snapshot_def)
  have hdr: "length ?header = 8" by simp
  have "snd (MemoryOffline_Init ex_os \<lparr>offline_memory = None\<rparr> ''snapshot'' 0)"
    by (simp add: MemoryOffline_Init_def MemoryFileAtOffset_Init_def MemoryFileAtOffset_Clear_def
        ex_os_def ex_snapshot_def getpagesize_def Init_default_size_def UINT64_MAX_def
        builtin_add_overflow_def builtin_sub_overflow_def ReadFully_def
        MemoryFileAtOffset_reader_def MemoryFileAtOffset_Read_def Let_def)
  then have init: "MemoryOffline_Init ex_os \<lparr>offline_memory = None\<rparr> ''snapshot'' 0 =
                   (ex_offline, True)"
    unfolding ex_offline_def by (simp add: prod_eq_iff)
  have S: "load_u64 ?header = 4096" by (simp add: load_u64_def)
  note t = MemoryOffline_snapshot [OF files len split hdr init, unfolded S]
  note r = t [THEN conjunct1, rule_format]
  note z = t [THEN conjunct2, rule_format]
  have a: "MemoryOffline_Read ex_offline (4096 + 50) 10 = (10, replicate 10 2)"
    using r [of 50 10] by simp
  have b: "MemoryOffline_Read ex_offline (4096 + 45) 10 = (10, replicate 5 1 @ replicate 5 2)"
    using r [of 45 10] by simp
  have c: "MemoryOffline_Read ex_offline (4096 + 95) 10 = (5, replicate 5 2)"
    using r [of 95 10] by simp
  have d: "MemoryOffline_Read ex_offline 4095 10 = (0, [])" using z [of 4095 10] by simp
  have e: "MemoryOffline_Read ex_offline 8192 10 = (0, [])" using z [of 8192 10] by simp
  from files init S a b c d e show ?thesis by (simp add: ex_snapshot_def)
qed

section \<open>The transfer functions and the kernel\<close>

text \<open>
  What each of the two transfer functions asks of the kernel. The bulk path hands the
  kernel only descriptors that do not wrap around the end of the address space, and it
  never uses the debug read; the word-at-a-time path never uses the bulk syscall.
\<close>

lemma fill_iovecs_no_wrap:
  "fill_iovecs n cur len iovs = Some (iovs', cur', len') \<Longrightarrow>
   \<forall>(b, l)\<in>set iovs. \<not> builtin_add_overflow b l \<Longrightarrow>
   \<forall>(b, l)\<in>set iovs'. \<not> builtin_add_overflow b l"
proof (induction n arbitrary: cur len iovs)
  case 0
  then show ?case by simp
next
  case (Suc n)
  show ?case
  proof (cases "0 < len")
    case False
    with Suc.prems show ?thesis by simp
  next
    case True
    let ?iov = "min (getpagesize - (cur AND (getpagesize - 1))) len"
    from Suc.prems(1) True
    have nov: "\<not> builtin_add_overflow cur ?iov"
      and rec: "fill_iovecs n (cur + ?iov) (len - ?iov) (iovs @ [(cur, ?iov)]) = Some (iovs', cur', len')"
      by (simp_all add: Let_def split: if_splits)
    from Suc.prems(2) nov
    have "\<forall>(b, l)\<in>set (iovs @ [(cur, ?iov)]). \<not> builtin_add_overflow b l" by auto
    from Suc.IH [OF rec this] show ?thesis .
  qed
qed

lemma ProcessVmRead_loop_kernel:
  assumes "\<And>len iovs. \<forall>(b, l)\<in>set iovs. \<not> builtin_add_overflow b l \<Longrightarrow>
             sys_process_vm_readv os' pid len iovs = sys_process_vm_readv os pid len iovs"
  shows "ProcessVmRead_loop os' pid cur len total_read dst =
         ProcessVmRead_loop os pid cur len total_read dst"
  using assms
proof (induction os pid cur len total_read dst rule: ProcessVmRead_loop.induct)
  case (1 os pid cur len total_read dst)
  note agree = "1.prems"
  show ?case
  proof (cases "0 < len")
    case False
    then show ?thesis
      by (subst ProcessVmRead_loop.simps, subst (2) ProcessVmRead_loop.simps) simp
  next
    case pos: True
    show ?thesis
    proof (cases "fill_iovecs kMaxIovecs cur len []")
      case None
      then show ?thesis
        by (subst ProcessVmRead_loop.simps, subst (2) ProcessVmRead_loop.simps) simp
    next
      case (Some x)
      obtain iovs cur' len' where x: "x = (iovs, cur', len')" by (cases x)
      note fill = Some [unfolded x]
      have "\<forall>(b, l)\<in>set iovs. \<not> builtin_add_overflow b l"
        by (rule fill_iovecs_no_wrap [OF fill]) simp
      then have sys: "sys_process_vm_readv os' pid len iovs = sys_process_vm_readv os pid len iovs"
        by (rule agree)
      show ?thesis
      proof (cases "sys_process_vm_readv os pid len iovs")
        case None
        with sys fill show ?thesis
          by (subst ProcessVmRead_loop.simps, subst (2) ProcessVmRead_loop.simps) simp
      next
        case (Some bs)
        have "ProcessVmRead_loop os' pid cur' len' (total_read + of_nat (length bs)) (dst @ bs) =
              ProcessVmRead_loop os pid cur' len' (total_read + of_nat (length bs)) (dst @ bs)"
          by (rule "1.IH" [OF pos fill refl refl Some agree])
        with Some sys fill pos show ?thesis
          by (subst ProcessVmRead_loop.simps, subst (2) ProcessVmRead_loop.simps) simp
      qed
    qed
  qed
qed

lemma ProcessVmRead_kernel:
  assumes "\<And>len iovs. \<forall>(b, l)\<in>set iovs. \<not> builtin_add_overflow b l \<Longrightarrow>
             sys_process_vm_readv os' pid len iovs = sys_process_vm_readv os pid len iovs"
  shows "ProcessVmRead os' pid addr sz = ProcessVmRead os pid addr sz"
  unfolding ProcessVmRead_def by (rule ProcessVmRead_loop_kernel) (rule assms)

lemma ProcessVmRead_no_peek:
  "ProcessVmRead (os\<lparr>sys_ptrace_peektext := peek\<rparr>) pid addr sz = ProcessVmRead os pid addr sz"
  by (rule ProcessVmRead_kernel) simp

lemma PtraceReadLong_no_bulk:
  "PtraceReadLong (os\<lparr>sys_process_vm_readv := bulk\<rparr>) pid addr = PtraceReadLong os pid addr"
  by (simp add: PtraceReadLong_def)

lemma PtraceRead_loop_no_bulk:
  "PtraceRead_loop (os\<lparr>sys_process_vm_readv := bulk\<rparr>) pid n addr bytes_read dst =
   PtraceRead_loop os pid n addr bytes_read dst"
  by (induction n arbitrary: addr bytes_read dst)
    (simp_all add: PtraceReadLong_no_bulk split: option.splits)

lemma PtraceRead_no_bulk:
  "PtraceRead (os\<lparr>sys_process_vm_readv := bulk\<rparr>) pid addr sz = PtraceRead os pid addr sz"
  unfolding PtraceRead_def PtraceReadLong_no_bulk PtraceRead_loop_no_bulk ..

section \<open>Remote-process memory: the recorded path\<close>

lemma ProcessVmRead_syscall_fails:
  assumes "\<And>len iovs. sys_process_vm_readv os pid len iovs = None"
  shows "ProcessVmRead os pid addr sz = (0, [])"
  unfolding ProcessVmRead_def
  by (subst ProcessVmRead_loop.simps) (simp add: assms split: option.splits)

lemma fill_iovecs_done: "fill_iovecs n cur 0 iovs = Some (iovs, cur, 0)"
  by (cases n) simp_all

lemma ProcessVmRead_one_page:
  assumes sz: "sz \<noteq> 0"
    and page: "unat (addr AND (getpagesize - 1)) + unat sz \<le> 4096"
    and nowrap: "unat addr + unat sz < 2 ^ 64"
    and sys: "sys_process_vm_readv os pid sz [(addr, sz)] = Some bs"
  shows "ProcessVmRead os pid addr sz = (of_nat (length bs), bs)"
proof -
  let ?mis = "addr AND (getpagesize - 1)"
  have k: "kMaxIovecs = Suc 63" by (simp add: kMaxIovecs_def)
  have pos: "0 < sz" using sz by (simp add: word_gt_0)
  have "0 < unat sz" using sz by (simp add: unat_gt_0)
  then have "unat addr < 2 ^ 64 - 1" using nowrap by simp
  then have nmax: "\<not> UINTPTR_MAX \<le> addr"
    by (simp add: UINTPTR_MAX_def word_le_nat_alt)
  have "?mis \<le> getpagesize" using page by (simp add: word_le_nat_alt getpagesize_def)
  then have "unat (getpagesize - ?mis) = 4096 - unat ?mis"
    by (simp add: unat_sub getpagesize_def)
  then have "unat (min (getpagesize - ?mis) sz) = unat sz"
    unfolding unat_min_word using page by simp
  then have iov: "min (getpagesize - ?mis) sz = sz" by (simp only: word_unat_eq_iff)
  have nov: "\<not> builtin_add_overflow addr sz"
    using nowrap by (simp add: builtin_add_overflow_def)
  have fill: "fill_iovecs kMaxIovecs addr sz [] = Some ([(addr, sz)], addr + sz, 0)"
    unfolding k fill_iovecs.simps(2) Let_def iov
    using pos nmax nov by (simp add: fill_iovecs_done)
  have last: "ProcessVmRead_loop os pid c 0 t d = (t, d)" for c t d
    by (subst ProcessVmRead_loop.simps) simp
  show ?thesis
    unfolding ProcessVmRead_def
    by (subst ProcessVmRead_loop.simps) (simp add: pos fill sys last)
qed

lemma MemoryRemote_Read_unrecorded:
  assumes "read_redirect_func m = None"
  shows "MemoryRemote_Read os m addr sz =
     (if fst (ProcessVmRead os (remote_pid m) addr sz) \<noteq> 0
      then ((m\<lparr>read_redirect_func := Some ProcessVmRead_fn\<rparr>,
             ProcessVmRead os (remote_pid m) addr sz), [ProcessVmRead_fn])
      else ((if fst (PtraceRead os (remote_pid m) addr sz) \<noteq> 0
             then m\<lparr>read_redirect_func := Some PtraceRead_fn\<rparr> else m,
             PtraceRead os (remote_pid m) addr sz), [ProcessVmRead_fn, PtraceRead_fn]))"
proof -
  obtain b d where p: "ProcessVmRead os (remote_pid m) addr sz = (b, d)"
    by (cases "ProcessVmRead os (remote_pid m) addr sz")
  obtain b' d' where q: "PtraceRead os (remote_pid m) addr sz = (b', d')"
    by (cases "PtraceRead os (remote_pid m) addr sz")
  show ?thesis by (simp add: MemoryRemote_Read_def assms p q word_gt_0)
qed

lemma MemoryRemote_Read_bulk:
  "read_redirect_func m = Some ProcessVmRead_fn \<Longrightarrow>
   MemoryRemote_Read os m addr sz =
     ((m, ProcessVmRead os (remote_pid m) addr sz), [ProcessVmRead_fn])"
  by (simp add: MemoryRemote_Read_def call_read_func_def)

lemma MemoryRemote_Read_words:
  "read_redirect_func m = Some PtraceRead_fn \<Longrightarrow>
   MemoryRemote_Read os m addr sz =
     ((m, PtraceRead os (remote_pid m) addr sz), [PtraceRead_fn])"
  by (simp add: MemoryRemote_Read_def call_read_func_def)

lemma MemoryRemote_Reads_bulk:
  "read_redirect_func m = Some ProcessVmRead_fn \<Longrightarrow>
   MemoryRemote_Reads m reqs =
     (m, map (\<lambda>(os, addr, sz). (ProcessVmRead os (remote_pid m) addr sz, [ProcessVmRead_fn])) reqs)"
proof (induction reqs)
  case Nil
  show ?case by simp
next
  case (Cons req reqs)
  obtain os addr sz where req: "req = (os, addr, sz)" by (cases req)
  from Cons show ?case by (simp add: req MemoryRemote_Read_bulk)
qed

lemma MemoryRemote_Reads_words:
  "read_redirect_func m = Some PtraceRead_fn \<Longrightarrow>
   MemoryRemote_Reads m reqs =
     (m, map (\<lambda>(os, addr, sz). (PtraceRead os (remote_pid m) addr sz, [PtraceRead_fn])) reqs)"
proof (induction reqs)
  case Nil
  show ?case by simp
next
  case (Cons req reqs)
  obtain os addr sz where req: "req = (os, addr, sz)" by (cases req)
  from Cons show ?case by (simp add: req MemoryRemote_Read_words)
qed

text \<open>
  C9. A read on a remote-process memory with no recorded path invokes the bulk path
  \<^verbatim>\<open>ProcessVmRead\<close> first, and the word-at-a-time path \<^verbatim>\<open>PtraceRead\<close> only when the bulk path
  returned zero bytes: it returns what the bulk path returned when that is not zero
  bytes, and then whatever the debug read of the kernel would do makes no difference to
  the call; otherwise it returns what the word-at-a-time path returned. The path that
  returned a non-zero count is recorded in the object (none when both returned zero).

  A read on an object with a recorded path is the read of that path: it returns what
  \<^verbatim>\<open>ProcessVmRead\<close>, respectively \<^verbatim>\<open>PtraceRead\<close>, returns for the request, invokes nothing
  else and leaves the record as it is. So does every read of any later sequence of
  reads, whatever the operating system is by then; and the reads of an object that
  recorded one path return the same when the kernel primitive of the other path is
  replaced by any other behaviour: the other path is not used again.
\<close>

theorem MemoryRemote_Read_sticky:
  "(read_redirect_func m = None \<longrightarrow>
      snd (MemoryRemote_Read os m addr sz) =
        (if fst (ProcessVmRead os (remote_pid m) addr sz) \<noteq> 0 then [ProcessVmRead_fn]
         else [ProcessVmRead_fn, PtraceRead_fn]) \<and>
      snd (fst (MemoryRemote_Read os m addr sz)) =
        (if fst (ProcessVmRead os (remote_pid m) addr sz) \<noteq> 0
         then ProcessVmRead os (remote_pid m) addr sz
         else PtraceRead os (remote_pid m) addr sz) \<and>
      fst (fst (MemoryRemote_Read os m addr sz)) =
        (if fst (ProcessVmRead os (remote_pid m) addr sz) \<noteq> 0
         then m\<lparr>read_redirect_func := Some ProcessVmRead_fn\<rparr>
         else if fst (PtraceRead os (remote_pid m) addr sz) \<noteq> 0
         then m\<lparr>read_redirect_func := Some PtraceRead_fn\<rparr>
         else m) \<and>
      (fst (ProcessVmRead os (remote_pid m) addr sz) \<noteq> 0 \<longrightarrow>
         MemoryRemote_Read (os\<lparr>sys_ptrace_peektext := peek\<rparr>) m addr sz =
         MemoryRemote_Read os m addr sz)) \<and>
   (read_redirect_func m = Some ProcessVmRead_fn \<longrightarrow>
      MemoryRemote_Read os m addr sz =
        ((m, ProcessVmRead os (remote_pid m) addr sz), [ProcessVmRead_fn]) \<and>
      MemoryRemote_Reads m reqs =
        (m, map (\<lambda>(os, addr, sz).
                   (ProcessVmRead os (remote_pid m) addr sz, [ProcessVmRead_fn])) reqs) \<and>
      MemoryRemote_Reads m
          (map (\<lambda>(os, addr, sz). (os\<lparr>sys_ptrace_peektext := peeks os\<rparr>, addr, sz)) reqs) =
        MemoryRemote_Reads m reqs) \<and>
   (read_redirect_func m = Some PtraceRead_fn \<longrightarrow>
      MemoryRemote_Read os m addr sz =
        ((m, PtraceRead os (remote_pid m) addr sz), [PtraceRead_fn]) \<and>
      MemoryRemote_Reads m reqs =
        (m, map (\<lambda>(os, addr, sz).
                   (PtraceRead os (remote_pid m) addr sz, [PtraceRead_fn])) reqs) \<and>
      MemoryRemote_Reads m
          (map (\<lambda>(os, addr, sz). (os\<lparr>sys_process_vm_readv := bulks os\<rparr>, addr, sz)) reqs) =
        MemoryRemote_Reads m reqs)"
proof (intro conjI impI)
  assume n: "read_redirect_func m = None"
  note r = MemoryRemote_Read_unrecorded [OF n, of os addr sz]
  show "snd (MemoryRemote_Read os m addr sz) =
        (if fst (ProcessVmRead os (remote_pid m) addr sz) \<noteq> 0 then [ProcessVmRead_fn]
         else [ProcessVmRead_fn, PtraceRead_fn])"
    unfolding r by simp
  show "snd (fst (MemoryRemote_Read os m addr sz)) =
        (if fst (ProcessVmRead os (remote_pid m) addr sz) \<noteq> 0
         then ProcessVmRead os (remote_pid m) addr sz
         else PtraceRead os (remote_pid m) addr sz)"
    unfolding r by simp
  show "fst (fst (MemoryRemote_Read os m addr sz)) =
        (if fst (ProcessVmRead os (remote_pid m) addr sz) \<noteq> 0
         then m\<lparr>read_redirect_func := Some ProcessVmRead_fn\<rparr>
         else if fst (PtraceRead os (remote_pid m) addr sz) \<noteq> 0
         then m\<lparr>read_redirect_func := Some PtraceRead_fn\<rparr>
         else m)"
    unfolding r by simp
  assume nz: "fst (ProcessVmRead os (remote_pid m) addr sz) \<noteq> 0"
  show "MemoryRemote_Read (os\<lparr>sys_ptrace_peektext := peek\<rparr>) m addr sz =
        MemoryRemote_Read os m addr sz"
    unfolding r MemoryRemote_Read_unrecorded [OF n, of "os\<lparr>sys_ptrace_peektext := peek\<rparr>" addr sz]
      ProcessVmRead_no_peek
    using nz by simp
next
  assume s: "read_redirect_func m = Some ProcessVmRead_fn"
  show "MemoryRemote_Read os m addr sz =
        ((m, ProcessVmRead os (remote_pid m) addr sz), [ProcessVmRead_fn])"
    by (rule MemoryRemote_Read_bulk [OF s])
  show "MemoryRemote_Reads m reqs =
        (m, map (\<lambda>(os, addr, sz).
                   (ProcessVmRead os (remote_pid m) addr sz, [ProcessVmRead_fn])) reqs)"
    by (rule MemoryRemote_Reads_bulk [OF s])
  show "MemoryRemote_Reads m
          (map (\<lambda>(os, addr, sz). (os\<lparr>sys_ptrace_peektext := peeks os\<rparr>, addr, sz)) reqs) =
        MemoryRemote_Reads m reqs"
    unfolding MemoryRemote_Reads_bulk [OF s]
    by (simp add: split_beta ProcessVmRead_no_peek comp_def)
next
  assume s: "read_redirect_func m = Some PtraceRead_fn"
  show "MemoryRemote_Read os m addr sz =
        ((m, PtraceRead os (remote_pid m) addr sz), [PtraceRead_fn])"
    by (rule MemoryRemote_Read_words [OF s])
  show "MemoryRemote_Reads m reqs =
        (m, map (\<lambda>(os, addr, sz).
                   (PtraceRead os (remote_pid m) addr sz, [PtraceRead_fn])) reqs)"
    by (rule MemoryRemote_Reads_words [OF s])
  show "MemoryRemote_Reads m
          (map (\<lambda>(os, addr, sz). (os\<lparr>sys_process_vm_readv := bulks os\<rparr>, addr, sz)) reqs) =
        MemoryRemote_Reads m reqs"
    unfolding MemoryRemote_Reads_words [OF s]
    by (simp add: split_beta PtraceRead_no_bulk comp_def)
qed

lemma ex_ptrace_os_bulk: "ProcessVmRead ex_ptrace_os 7 addr sz = (0, [])"
  by (rule ProcessVmRead_syscall_fails) (simp add: ex_ptrace_os_def)

lemma ex_ptrace_os_words:
  "PtraceRead ex_ptrace_os 7 16 8 = (8, long_bytes 578437695752307201)"
  by (simp add: PtraceRead_def builtin_add_overflow_def PtraceReadLong_def ex_ptrace_os_def)

lemma ex_bulk_os_bulk: "ProcessVmRead ex_bulk_os 7 16 8 = (8, replicate 8 5)"
proof -
  have "ProcessVmRead ex_bulk_os 7 16 8 =
        (of_nat (length (replicate (unat (8 :: u64)) (5 :: byte))), replicate (unat (8 :: u64)) 5)"
    by (rule ProcessVmRead_one_page) (simp_all add: getpagesize_def ex_bulk_os_def)
  then show ?thesis by simp
qed

lemma ex_bulk_os_words:
  "PtraceRead ex_bulk_os 7 16 8 = (8, long_bytes 578437695752307201)"
  "PtraceRead ex_bulk_os 7 32 4 = (4, take 4 (long_bytes 578437695752307201))"
  by (simp_all add: PtraceRead_def builtin_add_overflow_def PtraceReadLong_def ex_bulk_os_def)

text \<open>
  The theorem on an object whose first read finds the bulk path failing: the
  word-at-a-time path is recorded, and two later reads, made when the bulk path would
  work, return the words of the debug read and not the bytes of the bulk transfer; with
  the bulk syscall failing again they return the same. On an operating system whose bulk
  path works the first read records the bulk path, and a later read, made when the bulk
  syscall fails, returns zero bytes without trying the word-at-a-time path.
\<close>

theorem MemoryRemote_Read_sticky_witness:
  "read_redirect_func ex_remote = None \<and>
   fst (ProcessVmRead ex_ptrace_os (remote_pid ex_remote) 16 8) = 0 \<and>
   fst (PtraceRead ex_ptrace_os (remote_pid ex_remote) 16 8) = 8 \<and>
   MemoryRemote_Read ex_ptrace_os ex_remote 16 8 =
     ((ex_remote\<lparr>read_redirect_func := Some PtraceRead_fn\<rparr>,
       8, long_bytes 578437695752307201), [ProcessVmRead_fn, PtraceRead_fn]) \<and>
   ProcessVmRead ex_bulk_os 7 16 8 = (8, replicate 8 5) \<and>
   MemoryRemote_Reads (ex_remote\<lparr>read_redirect_func := Some PtraceRead_fn\<rparr>)
       [(ex_bulk_os, 16, 8), (ex_bulk_os, 32, 4)] =
     (ex_remote\<lparr>read_redirect_func := Some PtraceRead_fn\<rparr>,
      [((8, long_bytes 578437695752307201), [PtraceRead_fn]),
       ((4, take 4 (long_bytes 578437695752307201)), [PtraceRead_fn])]) \<and>
   MemoryRemote_Reads (ex_remote\<lparr>read_redirect_func := Some PtraceRead_fn\<rparr>)
       [(ex_bulk_os\<lparr>sys_process_vm_readv := \<lambda>pid len iovs. None\<rparr>, 16, 8),
        (ex_bulk_os\<lparr>sys_process_vm_readv := \<lambda>pid len iovs. None\<rparr>, 32, 4)] =
     MemoryRemote_Reads (ex_remote\<lparr>read_redirect_func := Some PtraceRead_fn\<rparr>)
       [(ex_bulk_os, 16, 8), (ex_bulk_os, 32, 4)] \<and>
   MemoryRemote_Read ex_bulk_os ex_remote 16 8 =
     ((ex_remote\<lparr>read_redirect_func := Some ProcessVmRead_fn\<rparr>, 8, replicate 8 5),
      [ProcessVmRead_fn]) \<and>
   MemoryRemote_Read (ex_bulk_os\<lparr>sys_ptrace_peektext := \<lambda>pid addr. (- 1, 1)\<rparr>) ex_remote 16 8 =
     MemoryRemote_Read ex_bulk_os ex_remote 16 8 \<and>
   fst (PtraceRead ex_ptrace_os 7 16 8) = 8 \<and>
   MemoryRemote_Reads (ex_remote\<lparr>read_redirect_func := Some ProcessVmRead_fn\<rparr>)
       [(ex_ptrace_os, 16, 8)] =
     (ex_remote\<lparr>read_redirect_func := Some ProcessVmRead_fn\<rparr>, [((0, []), [ProcessVmRead_fn])])"
proof -
  let ?words = "ex_remote\<lparr>read_redirect_func := Some PtraceRead_fn\<rparr>"
  let ?bulk = "ex_remote\<lparr>read_redirect_func := Some ProcessVmRead_fn\<rparr>"
  let ?reqs = "[(ex_bulk_os, 16 :: u64, 8 :: u64), (ex_bulk_os, 32, 4)]"
  have f: "read_redirect_func ex_remote = None" "remote_pid ex_remote = 7"
    by (simp_all add: ex_remote_def)
  have g: "read_redirect_func ?words = Some PtraceRead_fn" "remote_pid ?words = 7"
    by (simp_all add: ex_remote_def)
  have h: "read_redirect_func ?bulk = Some ProcessVmRead_fn" "remote_pid ?bulk = 7"
    by (simp_all add: ex_remote_def)
  note first = MemoryRemote_Read_sticky [where m = ex_remote and os = ex_ptrace_os
      and addr = 16 and sz = 8, THEN conjunct1, rule_format, OF f(1)]
  have a: "MemoryRemote_Read ex_ptrace_os ex_remote 16 8 =
     ((?words, 8, long_bytes 578437695752307201), [ProcessVmRead_fn, PtraceRead_fn])"
    using first f by (simp add: ex_ptrace_os_bulk ex_ptrace_os_words prod_eq_iff)
  note later = MemoryRemote_Read_sticky [where m = ?words and reqs = ?reqs
      and bulks = "\<lambda>os pid len iovs. None", THEN conjunct2, THEN conjunct2, rule_format, OF g(1)]
  have "MemoryRemote_Reads ?words ?reqs =
     (?words, map (\<lambda>(os, addr, sz).
                     (PtraceRead os (remote_pid ?words) addr sz, [PtraceRead_fn])) ?reqs)"
    by (rule later [THEN conjunct2, THEN conjunct1])
  also have "\<dots> = (?words, [((8, long_bytes 578437695752307201), [PtraceRead_fn]),
               ((4, take 4 (long_bytes 578437695752307201)), [PtraceRead_fn])])"
    by (simp add: g(2) ex_bulk_os_words)
  finally have b: "MemoryRemote_Reads ?words ?reqs =
     (?words, [((8, long_bytes 578437695752307201), [PtraceRead_fn]),
               ((4, take 4 (long_bytes 578437695752307201)), [PtraceRead_fn])])" .
  have mp: "map (\<lambda>(os, addr, sz). (os\<lparr>sys_process_vm_readv := \<lambda>pid len iovs. None\<rparr>, addr, sz)) ?reqs =
       [(ex_bulk_os\<lparr>sys_process_vm_readv := \<lambda>pid len iovs. None\<rparr>, 16, 8),
        (ex_bulk_os\<lparr>sys_process_vm_readv := \<lambda>pid len iovs. None\<rparr>, 32, 4)]"
    by simp
  have c: "MemoryRemote_Reads ?words
       [(ex_bulk_os\<lparr>sys_process_vm_readv := \<lambda>pid len iovs. None\<rparr>, 16, 8),
        (ex_bulk_os\<lparr>sys_process_vm_readv := \<lambda>pid len iovs. None\<rparr>, 32, 4)] =
     MemoryRemote_Reads ?words ?reqs"
    using later [THEN conjunct2, THEN conjunct2] unfolding mp .
  note start = MemoryRemote_Read_sticky [where m = ex_remote and os = ex_bulk_os
      and addr = 16 and sz = 8 and peek = "\<lambda>pid addr. (- 1, 1)",
      THEN conjunct1, rule_format, OF f(1)]
  have nz: "fst (ProcessVmRead ex_bulk_os (remote_pid ex_remote) 16 8) \<noteq> 0"
    by (simp add: f ex_bulk_os_bulk)
  have d: "MemoryRemote_Read ex_bulk_os ex_remote 16 8 =
     ((?bulk, 8, replicate 8 5), [ProcessVmRead_fn])"
    using start f by (simp add: ex_bulk_os_bulk prod_eq_iff)
  have e: "MemoryRemote_Read (ex_bulk_os\<lparr>sys_ptrace_peektext := \<lambda>pid addr. (- 1, 1)\<rparr>) ex_remote 16 8 =
     MemoryRemote_Read ex_bulk_os ex_remote 16 8"
    using start [THEN conjunct2, THEN conjunct2, THEN conjunct2, rule_format, OF nz] .
  note pinned = MemoryRemote_Read_sticky [where m = ?bulk and reqs = "[(ex_ptrace_os, 16, 8)]",
      THEN conjunct2, THEN conjunct1, rule_format, OF h(1)]
  have "MemoryRemote_Reads ?bulk [(ex_ptrace_os, 16, 8)] =
     (?bulk, map (\<lambda>(os, addr, sz).
                    (ProcessVmRead os (remote_pid ?bulk) addr sz, [ProcessVmRead_fn]))
               [(ex_ptrace_os, 16, 8)])"
    by (rule pinned [THEN conjunct2, THEN conjunct1])
  also have "\<dots> = (?bulk, [((0, []), [ProcessVmRead_fn])])"
    by (simp add: h(2) ex_ptrace_os_bulk)
  finally have i: "MemoryRemote_Reads ?bulk [(ex_ptrace_os, 16, 8)] =
     (?bulk, [((0, []), [ProcessVmRead_fn])])" .
  from f a b c d e i show ?thesis
    by (simp add: ex_ptrace_os_bulk ex_ptrace_os_words ex_bulk_os_bulk)
qed

section \<open>Local-process memory: the fallback copy\<close>

lemma those_map_Some:
  "\<forall>x\<in>set xs. f x \<noteq> None \<Longrightarrow> those (map f xs) = Some (map (\<lambda>x. the (f x)) xs)"
  by (induction xs) auto

lemma those_length: "those xs = Some ys \<Longrightarrow> length ys = length xs"
  by (induction xs arbitrary: ys) (auto split: option.splits)

lemma memcpy_from_length: "memcpy_from os addr sz = Some bs \<Longrightarrow> length bs = unat sz"
  unfolding memcpy_from_def by (drule those_length) simp

lemma memcpy_from_readable:
  assumes "\<forall>i<unat sz. proc_memory os (addr + of_nat i) \<noteq> None"
  shows "memcpy_from os addr sz =
         Some (map (\<lambda>i. the (proc_memory os (addr + of_nat i))) [0..<unat sz])"
  unfolding memcpy_from_def using assms by (intro those_map_Some) simp

text \<open>
  C10. A read of \<open>size > 0\<close> on local-process memory never returns 0. When the bulk path
  transfers zero bytes the call is the direct copy of \<open>size\<close> bytes from the address: if
  it returns, it reports exactly \<open>size\<close> bytes, and it returns them whenever the whole
  range is readable (the copy of an unreadable range faults, which is no return). A
  return of fewer than \<open>size\<close> bytes is the non-zero result of the bulk path.
\<close>

theorem MemoryLocal_Read_never_zero:
  "sz \<noteq> 0 \<longrightarrow>
     (\<forall>d. MemoryLocal_Read os addr sz \<noteq> Some (0, d)) \<and>
     (fst (ProcessVmRead os (sys_getpid os) addr sz) = 0 \<longrightarrow>
        MemoryLocal_Read os addr sz = map_option (\<lambda>bs. (sz, bs)) (memcpy_from os addr sz) \<and>
        (\<forall>n d. MemoryLocal_Read os addr sz = Some (n, d) \<longrightarrow> n = sz \<and> length d = unat sz) \<and>
        ((\<forall>i<unat sz. proc_memory os (addr + of_nat i) \<noteq> None) \<longrightarrow>
           MemoryLocal_Read os addr sz =
             Some (sz, map (\<lambda>i. the (proc_memory os (addr + of_nat i))) [0..<unat sz]))) \<and>
     (\<forall>n d. MemoryLocal_Read os addr sz = Some (n, d) \<and> n < sz \<longrightarrow>
        ProcessVmRead os (sys_getpid os) addr sz = (n, d) \<and> n \<noteq> 0)"
proof (intro impI)
  assume sz: "sz \<noteq> 0"
  obtain r d0 where p: "ProcessVmRead os (sys_getpid os) addr sz = (r, d0)"
    by (cases "ProcessVmRead os (sys_getpid os) addr sz")
  show "(\<forall>d. MemoryLocal_Read os addr sz \<noteq> Some (0, d)) \<and>
     (fst (ProcessVmRead os (sys_getpid os) addr sz) = 0 \<longrightarrow>
        MemoryLocal_Read os addr sz = map_option (\<lambda>bs. (sz, bs)) (memcpy_from os addr sz) \<and>
        (\<forall>n d. MemoryLocal_Read os addr sz = Some (n, d) \<longrightarrow> n = sz \<and> length d = unat sz) \<and>
        ((\<forall>i<unat sz. proc_memory os (addr + of_nat i) \<noteq> None) \<longrightarrow>
           MemoryLocal_Read os addr sz =
             Some (sz, map (\<lambda>i. the (proc_memory os (addr + of_nat i))) [0..<unat sz]))) \<and>
     (\<forall>n d. MemoryLocal_Read os addr sz = Some (n, d) \<and> n < sz \<longrightarrow>
        ProcessVmRead os (sys_getpid os) addr sz = (n, d) \<and> n \<noteq> 0)"
  proof (cases "r = 0")
    case True
    have eq: "MemoryLocal_Read os addr sz = map_option (\<lambda>bs. (sz, bs)) (memcpy_from os addr sz)"
      using sz True by (simp add: MemoryLocal_Read_def p split: option.splits)
    have ret: "n = sz \<and> length d = unat sz" if "MemoryLocal_Read os addr sz = Some (n, d)" for n d
      using that memcpy_from_length [of os addr sz d] unfolding eq by auto
    have rdb: "MemoryLocal_Read os addr sz =
             Some (sz, map (\<lambda>i. the (proc_memory os (addr + of_nat i))) [0..<unat sz])"
      if "\<forall>i<unat sz. proc_memory os (addr + of_nat i) \<noteq> None"
      unfolding eq memcpy_from_readable [OF that] by simp
    from sz ret have nz: "\<forall>d. MemoryLocal_Read os addr sz \<noteq> Some (0, d)" by metis
    from ret have short: "\<forall>n d. MemoryLocal_Read os addr sz = Some (n, d) \<and> n < sz \<longrightarrow>
        ProcessVmRead os (sys_getpid os) addr sz = (n, d) \<and> n \<noteq> 0"
      by (metis less_irrefl)
    from eq ret rdb nz short show ?thesis by blast
  next
    case False
    then have eq: "MemoryLocal_Read os addr sz = Some (r, d0)"
      by (simp add: MemoryLocal_Read_def p)
    with False p show ?thesis by simp
  qed
qed

text \<open>
  The theorem where the bulk path fails on a readable range, where it fails on an
  unreadable one, and where it transfers two of four bytes.
\<close>

theorem MemoryLocal_Read_never_zero_witness:
  "fst (ProcessVmRead ex_ptrace_os (sys_getpid ex_ptrace_os) 256 4) = 0 \<and>
   MemoryLocal_Read ex_ptrace_os 256 4 = Some (4, [9, 9, 9, 9]) \<and>
   MemoryLocal_Read ex_ptrace_os 512 4 = None \<and>
   ProcessVmRead ex_partial_os (sys_getpid ex_partial_os) 256 4 = (2, [5, 5]) \<and>
   MemoryLocal_Read ex_partial_os 256 4 = Some (2, [5, 5])"
proof -
  have pid: "sys_getpid ex_ptrace_os = 1" "sys_getpid ex_partial_os = 1"
    by (simp_all add: ex_ptrace_os_def ex_partial_os_def)
  have b: "ProcessVmRead ex_ptrace_os 1 a n = (0, [])" for a n
    by (rule ProcessVmRead_syscall_fails) (simp add: ex_ptrace_os_def)
  have m: "memcpy_from ex_ptrace_os 256 4 = Some [9, 9, 9, 9]"
    "memcpy_from ex_ptrace_os 512 4 = None"
    by (simp_all add: memcpy_from_def ex_ptrace_os_def upt_conv_Cons)
  have part: "ProcessVmRead ex_partial_os 1 256 4 = (2, [5, 5])"
  proof -
    have "ProcessVmRead ex_partial_os 1 256 4 = (of_nat (length [5, 5 :: byte]), [5, 5])"
      by (rule ProcessVmRead_one_page) (simp_all add: getpagesize_def ex_partial_os_def)
    then show ?thesis by simp
  qed
  note t1 = MemoryLocal_Read_never_zero [of 4 ex_ptrace_os 256, unfolded pid b]
  note t2 = MemoryLocal_Read_never_zero [of 4 ex_ptrace_os 512, unfolded pid b]
  note t3 = MemoryLocal_Read_never_zero [of 4 ex_partial_os 256, unfolded pid part]
  from t1 have r1: "MemoryLocal_Read ex_ptrace_os 256 4 = Some (4, [9, 9, 9, 9])"
    by (simp add: m)
  from t2 have r2: "MemoryLocal_Read ex_ptrace_os 512 4 = None"
    by (simp add: m)
  have r3: "MemoryLocal_Read ex_partial_os 256 4 = Some (2, [5, 5])"
    by (simp add: MemoryLocal_Read_def pid part)
  with t3 have "\<forall>d. MemoryLocal_Read ex_partial_os 256 4 \<noteq> Some (0, d)" by simp
  with r1 r2 r3 pid b part show ?thesis by simp
qed

section \<open>Paging cache: a page fill that fails\<close>

lemma cache_page_fails_iff:
  "cache_page rd impl page cache = (impl1, cache1, None) \<longleftrightarrow>
     cache page = None \<and> cache1 = cache \<and>
     (\<exists>data. ReadFully rd impl (push_bit kCacheBits page) kCacheSize = (impl1, False, data))"
proof (cases "cache page")
  case None
  then have "(cache(page \<mapsto> new_page))(page := None) = cache" by (simp add: fun_upd_idem)
  with None show ?thesis
    by (cases "ReadFully rd impl (push_bit kCacheBits page) kCacheSize")
      (auto simp: cache_page_def Let_def)
next
  case (Some a)
  then show ?thesis by (simp add: cache_page_def)
qed

lemma InternalCachedRead_first_fails:
  assumes "cache_page rd impl (drop_bit kCacheBits addr) cache = (impl1, cache1, None)"
  shows "InternalCachedRead rd impl addr sz cache =
         (case rd impl1 addr sz of (impl2, n, d) \<Rightarrow> (impl2, cache1, n, d))"
  unfolding InternalCachedRead_def Let_def assms by (simp add: split_beta)

lemma InternalCachedRead_second_fails:
  assumes "cache_page rd impl (drop_bit kCacheBits addr) cache = (impl1, cache1, Some cache_dst)"
    and "push_bit kCacheBits (drop_bit kCacheBits addr + 1) - addr < sz"
    and "cache_page rd impl1 (drop_bit kCacheBits addr + 1) cache1 = (impl2, cache2, None)"
  shows "InternalCachedRead rd impl addr sz cache =
         (case rd impl2 (push_bit kCacheBits (drop_bit kCacheBits addr + 1))
                  (sz - (push_bit kCacheBits (drop_bit kCacheBits addr + 1) - addr)) of
            (impl3, n, d) \<Rightarrow>
              (impl3, cache2, n + (push_bit kCacheBits (drop_bit kCacheBits addr + 1) - addr),
               take (unat (push_bit kCacheBits (drop_bit kCacheBits addr + 1) - addr))
                 (drop (unat (addr AND kCacheMask)) cache_dst) @ d))"
  unfolding InternalCachedRead_def Let_def assms(1) prod.case option.case assms(3)
  using assms(2) by (simp add: not_le [symmetric] split_beta)

text \<open>
  C8 (as amended). The block that finds or fills a page fails exactly when the page is
  absent and the full-page read of the wrapped source fails, and it leaves the cache as it
  was: the slot just inserted is gone and every other entry is untouched. When this
  happens for the page of \<open>addr\<close>, the call is the direct read of the wrapped source at
  \<open>addr\<close> with the requested size. When the request runs over into the next page and it
  happens for that page, the call keeps the \<open>max_read\<close> bytes it copied from the first
  page, reads the remaining \<open>size - max_read\<close> bytes directly from the wrapped source at
  the base of the second page, and returns that count plus \<open>max_read\<close>.
\<close>

theorem InternalCachedRead_fill_failure:
  "(cache_page rd impl page cache = (impl1, cache1, None) \<longleftrightarrow>
      cache page = None \<and> cache1 = cache \<and>
      (\<exists>data. ReadFully rd impl (push_bit kCacheBits page) kCacheSize = (impl1, False, data))) \<and>
   (cache_page rd impl (drop_bit kCacheBits addr) cache = (impl1, cache1, None) \<longrightarrow>
      InternalCachedRead rd impl addr sz cache =
        (case rd impl1 addr sz of (impl2, n, d) \<Rightarrow> (impl2, cache, n, d))) \<and>
   (cache_page rd impl (drop_bit kCacheBits addr) cache = (impl1, cache1, Some cache_dst) \<and>
    push_bit kCacheBits (drop_bit kCacheBits addr + 1) - addr < sz \<and>
    cache_page rd impl1 (drop_bit kCacheBits addr + 1) cache1 = (impl2, cache2, None) \<longrightarrow>
      cache2 = cache1 \<and> cache1 (drop_bit kCacheBits addr + 1) = None \<and>
      InternalCachedRead rd impl addr sz cache =
        (case rd impl2 (push_bit kCacheBits (drop_bit kCacheBits addr + 1))
                 (sz - (push_bit kCacheBits (drop_bit kCacheBits addr + 1) - addr)) of
           (impl3, n, d) \<Rightarrow>
             (impl3, cache1, n + (push_bit kCacheBits (drop_bit kCacheBits addr + 1) - addr),
              take (unat (push_bit kCacheBits (drop_bit kCacheBits addr + 1) - addr))
                (drop (unat (addr AND kCacheMask)) cache_dst) @ d)))"
proof (intro conjI impI)
  show "cache_page rd impl page cache = (impl1, cache1, None) \<longleftrightarrow>
      cache page = None \<and> cache1 = cache \<and>
      (\<exists>data. ReadFully rd impl (push_bit kCacheBits page) kCacheSize = (impl1, False, data))"
    by (rule cache_page_fails_iff)
next
  assume a: "cache_page rd impl (drop_bit kCacheBits addr) cache = (impl1, cache1, None)"
  then have "cache1 = cache" by (simp add: cache_page_fails_iff)
  with InternalCachedRead_first_fails [OF a, of sz]
  show "InternalCachedRead rd impl addr sz cache =
        (case rd impl1 addr sz of (impl2, n, d) \<Rightarrow> (impl2, cache, n, d))"
    by (simp add: split_beta)
next
  assume a: "cache_page rd impl (drop_bit kCacheBits addr) cache = (impl1, cache1, Some cache_dst) \<and>
    push_bit kCacheBits (drop_bit kCacheBits addr + 1) - addr < sz \<and>
    cache_page rd impl1 (drop_bit kCacheBits addr + 1) cache1 = (impl2, cache2, None)"
  then show c: "cache2 = cache1" and "cache1 (drop_bit kCacheBits addr + 1) = None"
    by (simp_all add: cache_page_fails_iff)
  from a InternalCachedRead_second_fails [of rd impl addr cache impl1 cache1 cache_dst sz impl2 cache2]
  show "InternalCachedRead rd impl addr sz cache =
        (case rd impl2 (push_bit kCacheBits (drop_bit kCacheBits addr + 1))
                 (sz - (push_bit kCacheBits (drop_bit kCacheBits addr + 1) - addr)) of
           (impl3, n, d) \<Rightarrow>
             (impl3, cache1, n + (push_bit kCacheBits (drop_bit kCacheBits addr + 1) - addr),
              take (unat (push_bit kCacheBits (drop_bit kCacheBits addr + 1) - addr))
                (drop (unat (addr AND kCacheMask)) cache_dst) @ d))"
    unfolding c by (simp add: split_beta)
qed

lemma ex_paged_ranges_reads:
  "MemoryRanges_Read MemoryBuffer_reader ex_paged_ranges 0 4096 =
     (ex_paged_ranges, 4096, replicate 4096 1)"
  "MemoryRanges_Read MemoryBuffer_reader ex_paged_ranges 4096 4096 =
     (ex_paged_ranges, 5, replicate 5 2)"
  "MemoryRanges_Read MemoryBuffer_reader ex_paged_ranges 4096 14 =
     (ex_paged_ranges, 5, replicate 5 2)"
  "MemoryRanges_Read MemoryBuffer_reader ex_paged_ranges 4090 20 =
     (ex_paged_ranges, 6, replicate 6 1)"
  "MemoryRanges_Read MemoryBuffer_reader ex_paged_ranges 4098 2 =
     (ex_paged_ranges, 2, replicate 2 2)"
  by (simp_all add: ex_paged_ranges_def ex_page_buffer_def ex_tail_buffer_def
      MemoryRange_Read_def builtin_add_overflow_def MemoryBuffer_reader_def
      MemoryBuffer_Read_def)

lemma ex_cache_constants:
  "kCacheSize = 4096"
  "drop_bit kCacheBits (4090 :: u64) = 0"
  "drop_bit kCacheBits (4098 :: u64) = 1"
  "(2 :: u64) ^ kCacheBits = 4096"
  "push_bit kCacheBits (0 :: u64) = 0"
  "push_bit kCacheBits (1 :: u64) = 4096"
  "(4090 :: u64) AND kCacheMask = 4090"
  by (simp_all add: kCacheSize_def kCacheBits_def kCacheMask_def drop_bit_eq_div push_bit_eq_mult
      flip: mask_eq_exp_minus_1 take_bit_eq_mask add: take_bit_eq_mod)

lemma ex_paged_ranges_pages:
  "cache_page (MemoryRanges_Read MemoryBuffer_reader) ex_paged_ranges 0 Map.empty =
     (ex_paged_ranges, [0 \<mapsto> replicate 4096 1], Some (replicate 4096 1))"
  "c 1 = None \<Longrightarrow>
   cache_page (MemoryRanges_Read MemoryBuffer_reader) ex_paged_ranges 1 c =
     (ex_paged_ranges, c, None)"
proof -
  show "cache_page (MemoryRanges_Read MemoryBuffer_reader) ex_paged_ranges 0 Map.empty =
     (ex_paged_ranges, [0 \<mapsto> replicate 4096 1], Some (replicate 4096 1))"
    by (simp add: cache_page_def ReadFully_def ex_cache_constants ex_paged_ranges_reads
        filled_page_def new_page_def)
  assume "c 1 = None"
  then show "cache_page (MemoryRanges_Read MemoryBuffer_reader) ex_paged_ranges 1 c =
     (ex_paged_ranges, c, None)"
    by (simp add: cache_page_fails_iff ReadFully_def ex_cache_constants ex_paged_ranges_reads)
qed

text \<open>
  The theorem on the example source with an empty cache: a read inside page 1, and a read
  of 20 bytes at 4090 that runs from page 0 into page 1.
\<close>

theorem InternalCachedRead_fill_failure_witness:
  "cache_page (MemoryRanges_Read MemoryBuffer_reader) ex_paged_ranges 1 Map.empty =
     (ex_paged_ranges, Map.empty, None) \<and>
   ReadFully (MemoryRanges_Read MemoryBuffer_reader) ex_paged_ranges (push_bit kCacheBits 1)
       kCacheSize = (ex_paged_ranges, False, replicate 5 2) \<and>
   InternalCachedRead (MemoryRanges_Read MemoryBuffer_reader) ex_paged_ranges 4098 2 Map.empty =
     (ex_paged_ranges, Map.empty, 2, replicate 2 2) \<and>
   cache_page (MemoryRanges_Read MemoryBuffer_reader) ex_paged_ranges 0 Map.empty =
     (ex_paged_ranges, [0 \<mapsto> replicate 4096 1], Some (replicate 4096 1)) \<and>
   InternalCachedRead (MemoryRanges_Read MemoryBuffer_reader) ex_paged_ranges 4090 20 Map.empty =
     (ex_paged_ranges, [0 \<mapsto> replicate 4096 1], 11, replicate 6 1 @ replicate 5 2)"
proof -
  let ?rd = "MemoryRanges_Read MemoryBuffer_reader"
  let ?c1 = "[0 \<mapsto> replicate 4096 (1 :: byte)] :: CacheDataType"
  note c = ex_cache_constants
  have p1: "cache_page ?rd ex_paged_ranges 1 Map.empty = (ex_paged_ranges, Map.empty, None)"
    by (rule ex_paged_ranges_pages(2)) simp
  have p1': "cache_page ?rd ex_paged_ranges (0 + 1) ?c1 = (ex_paged_ranges, ?c1, None)"
    using ex_paged_ranges_pages(2) [of ?c1] by simp
  have rf: "ReadFully ?rd ex_paged_ranges (push_bit kCacheBits 1) kCacheSize =
            (ex_paged_ranges, False, replicate 5 2)"
    by (simp add: ReadFully_def c ex_paged_ranges_reads)
  from InternalCachedRead_fill_failure [of ?rd ex_paged_ranges _ Map.empty ex_paged_ranges
      Map.empty 4098 2, unfolded c] p1
  have one: "InternalCachedRead ?rd ex_paged_ranges 4098 2 Map.empty =
             (ex_paged_ranges, Map.empty, 2, replicate 2 2)"
    by (simp add: ex_paged_ranges_reads c)
  from InternalCachedRead_fill_failure [of ?rd ex_paged_ranges _ Map.empty ex_paged_ranges
      ?c1 4090 20 "replicate 4096 1" ex_paged_ranges ?c1, unfolded c]
    ex_paged_ranges_pages(1) p1'
  have two: "InternalCachedRead ?rd ex_paged_ranges 4090 20 Map.empty =
             (ex_paged_ranges, ?c1, 11, replicate 6 1 @ replicate 5 2)"
    by (simp add: ex_paged_ranges_reads c)
  from p1 rf one two ex_paged_ranges_pages(1) show ?thesis by simp
qed

text \<open>
  The claim C8 as stated lets a failed fill of the second page fall back to a direct read
  of the bytes originally requested. On the example source the fill of page 1 fails for
  the read of 20 bytes at 4090; the call returns 11 bytes, while the direct read of the
  20 bytes at 4090 returns 6.
\<close>

theorem InternalCachedRead_second_page_counterexample:
  "cache_page (MemoryRanges_Read MemoryBuffer_reader) ex_paged_ranges (drop_bit kCacheBits 4090 + 1)
       [0 \<mapsto> replicate 4096 1] =
     (ex_paged_ranges, [0 \<mapsto> replicate 4096 1], None) \<and>
   fst (snd (snd (InternalCachedRead (MemoryRanges_Read MemoryBuffer_reader) ex_paged_ranges
                    4090 20 Map.empty))) = 11 \<and>
   fst (snd (MemoryRanges_Read MemoryBuffer_reader ex_paged_ranges 4090 20)) = 6"
proof -
  let ?rd = "MemoryRanges_Read MemoryBuffer_reader"
  let ?c1 = "[0 \<mapsto> replicate 4096 (1 :: byte)] :: CacheDataType"
  have p1: "cache_page ?rd ex_paged_ranges (0 + 1) ?c1 = (ex_paged_ranges, ?c1, None)"
    using ex_paged_ranges_pages(2) [of ?c1] by simp
  have "InternalCachedRead ?rd ex_paged_ranges 4090 20 Map.empty =
        (ex_paged_ranges, ?c1, 11, replicate 6 1 @ replicate 5 2)"
    unfolding InternalCachedRead_def Let_def ex_cache_constants ex_paged_ranges_pages(1)
      prod.case option.case p1
    by (simp add: ex_cache_constants ex_paged_ranges_reads)
  with p1 show ?thesis by (simp add: ex_cache_constants ex_paged_ranges_reads)
qed

section \<open>Requests that reach past the end of the address space\<close>

lemma overflow_exceeds_rest:
  assumes "2 ^ 64 \<le> unat addr + unat sz" "addr < (n :: u64)"
  shows "min (n - addr) sz = n - addr"
proof -
  have "unat (n - addr) = unat n - unat addr"
    using assms(2) by (simp add: unat_sub word_le_less_eq)
  moreover have "unat n < 2 ^ 64" by (rule unat_u64_less)
  ultimately have "unat (n - addr) \<le> unat sz" using assms(1) by linarith
  then show ?thesis by (simp add: min_def word_le_nat_alt)
qed

lemma MemoryRange_Read_cases:
  "MemoryRange_Read rd r addr sz =
     (if addr < range_offset r \<or> unat (range_offset r) + unat (range_length r) \<le> unat addr \<or>
         builtin_add_overflow (addr - range_offset r) (range_begin r)
      then (r, 0, [])
      else case rd (range_memory r) (addr - range_offset r + range_begin r)
                  (min sz (range_length r - (addr - range_offset r))) of
             (m', n, data) \<Rightarrow> (r\<lparr>range_memory := m'\<rparr>, n, data))"
proof (cases "addr < range_offset r \<or> unat (range_offset r) + unat (range_length r) \<le> unat addr")
  case True
  from MemoryRange_Read_outside [OF True] True show ?thesis by auto
next
  case False
  then have le: "range_offset r \<le> addr"
    and lt: "unat addr < unat (range_offset r) + unat (range_length r)" by auto
  from MemoryRange_Read_inside(1) [OF le lt, of rd sz] False show ?thesis by simp
qed

lemma MemoryRanges_Read_dropWhile:
  "MemoryRanges_Read rd maps addr sz =
     (case dropWhile (\<lambda>e. fst e \<le> addr) maps of
        [] \<Rightarrow> (maps, 0, [])
      | (k, r) # post \<Rightarrow>
          (case MemoryRange_Read rd r addr sz of
             (r', n, data) \<Rightarrow> (takeWhile (\<lambda>e. fst e \<le> addr) maps @ (k, r') # post, n, data)))"
proof (induction maps)
  case Nil
  show ?case by simp
next
  case (Cons e maps)
  note IH = Cons.IH
  obtain k r where e: "e = (k, r)" by (cases e)
  show ?case
  proof (cases "addr < k")
    case True
    then have "\<not> k \<le> addr" by simp
    with True show ?thesis unfolding e by simp
  next
    case False
    then have le: "k \<le> addr" by simp
    show ?thesis
    proof (cases "dropWhile (\<lambda>e. fst e \<le> addr) maps")
      case Nil
      from IH have "MemoryRanges_Read rd maps addr sz = (maps, 0, [])" by (simp add: Nil)
      with False le show ?thesis unfolding e by (simp add: Nil)
    next
      case (Cons x post)
      obtain k' r' where x: "x = (k', r')" by (cases x)
      obtain r'' n d where rr: "MemoryRange_Read rd r' addr sz = (r'', n, d)"
        by (cases "MemoryRange_Read rd r' addr sz") auto
      from IH have "MemoryRanges_Read rd maps addr sz =
          (takeWhile (\<lambda>e. fst e \<le> addr) maps @ (k', r'') # post, n, d)"
        by (simp add: Cons x rr)
      with False le show ?thesis unfolding e by (simp add: Cons x rr)
    qed
  qed
qed

lemma MemoryOffline_Read_cases:
  "MemoryOffline_Read mo addr sz =
     (case offline_memory mo of
        None \<Rightarrow> (0, [])
      | Some w \<Rightarrow>
          if addr < range_offset w \<or> unat (range_offset w) + unat (range_length w) \<le> unat addr \<or>
             builtin_add_overflow (addr - range_offset w) (range_begin w)
          then (0, [])
          else MemoryFileAtOffset_Read (range_memory w) (addr - range_offset w + range_begin w)
                 (min sz (range_length w - (addr - range_offset w))))"
  by (simp add: MemoryOffline_Read_def MemoryRange_Read_cases MemoryFileAtOffset_reader_def
      split_beta split: option.splits)

lemma MemoryOfflineParts_Read_find:
  "MemoryOfflineParts_Read memories addr sz =
     (case find (\<lambda>memory. fst (MemoryOffline_Read memory addr sz) \<noteq> 0) memories of
        None \<Rightarrow> (0, [])
      | Some memory \<Rightarrow> MemoryOffline_Read memory addr sz)"
  by (induction memories) (simp_all add: split_beta)

lemma fill_iovecs_numeral:
  "fill_iovecs (numeral k) cur len src_iovs =
     (if len > 0 then
        if cur \<ge> UINTPTR_MAX then None
        else
          let misalignment = cur AND (getpagesize - 1);
              iov_len = min (getpagesize - misalignment) len;
              len' = len - iov_len
          in if builtin_add_overflow cur iov_len then None
             else fill_iovecs (pred_numeral k) (cur + iov_len) len' (src_iovs @ [(cur, iov_len)])
      else Some (src_iovs, cur, len))"
  by (simp add: numeral_eq_Suc)

text \<open>
  A request of 66 pages that starts 65 pages before the end of the address space, on an
  operating system whose bulk syscall transfers two bytes: the first batch of 64
  descriptors is handed to the kernel, the second batch stops at the descriptor that
  would end at \<open>2^64\<close>, and the call returns the two bytes of the first batch.
\<close>

lemma ex_partial_os_far:
  "ProcessVmRead ex_partial_os pid 18446744073709285376 270336 = (2, [5, 5])"
proof -
  have "\<exists>iovs. fill_iovecs kMaxIovecs 18446744073709285376 270336 [] =
          Some (iovs, 18446744073709547520, 8192)"
    by (simp add: kMaxIovecs_def fill_iovecs_numeral UINTPTR_MAX_def getpagesize_def
        builtin_add_overflow_def Let_def)
  then obtain iovs where first: "fill_iovecs kMaxIovecs 18446744073709285376 270336 [] =
          Some (iovs, 18446744073709547520, 8192)" ..
  have second: "fill_iovecs kMaxIovecs 18446744073709547520 8192 [] = None"
    by (simp add: kMaxIovecs_def fill_iovecs_numeral UINTPTR_MAX_def getpagesize_def
        builtin_add_overflow_def Let_def)
  have sys: "sys_process_vm_readv ex_partial_os pid len iovs' = Some [5, 5]" for len iovs'
    by (simp add: ex_partial_os_def)
  have stop: "ProcessVmRead_loop ex_partial_os pid 18446744073709547520 8192 t d = (t, d)" for t d
    by (subst ProcessVmRead_loop.simps) (simp add: second)
  show ?thesis
    unfolding ProcessVmRead_def
    by (subst ProcessVmRead_loop.simps) (simp add: first sys stop)
qed

text \<open>
  C2 (as amended). Let \<open>addr + size\<close> exceed the 64-bit unsigned range.
  \<^item> The word-at-a-time path \<^verbatim>\<open>PtraceRead\<close> returns 0, and so does a remote-process memory
    that has recorded this path.
  \<^item> The bulk path \<^verbatim>\<open>ProcessVmRead\<close> hands the kernel no descriptor that wraps around the
    end of the address space: what it returns is the same on every operating system that
    answers the descriptor lists without such a descriptor alike. A remote-process
    memory that has not recorded the word-at-a-time path returns the count of the bulk
    path, and local memory returns what the bulk path returned when that is not zero
    bytes.
  \<^item> A buffer-backed or file-backed read returns 0 only for \<open>addr \<ge> N\<close>; for \<open>addr < N\<close> it
    returns the \<open>N - addr\<close> bytes from \<open>addr\<close> to the end of the source, so nothing wraps
    and nothing outside the source is copied.
  \<^item> A range read returns 0 outside the window and where the translation overflows; else
    it is the underlying read at \<open>addr - offset + begin\<close> with the size clamped to the
    bytes left in the window. A range-set read is the read of the first range whose
    upper bound exceeds \<open>addr\<close>, and 0 without one. The read of an offline snapshot is 0
    before \<^verbatim>\<open>Init\<close> and then the read of its window over the mapped file; the read of
    several snapshots is the first of their reads that is not zero bytes, and 0 without
    one.
  \<^item> The read of an offline buffer returns 0 for \<open>addr\<close> outside \<open>[start, end)\<close> and
    otherwise the \<open>end - addr\<close> bytes from \<open>addr\<close> to the end of the buffer.
  \<^item> A cached read whose first page is absent and cannot be filled is the read of the
    wrapped source.

  Nothing is stated about the in-process copy that local memory makes when the bulk path
  returned zero bytes, nor about a cached read that has found or filled its first page.
\<close>

theorem Read_overflow:
  "2 ^ 64 \<le> unat addr + unat sz \<longrightarrow>
     PtraceRead os pid addr sz = (0, []) \<and>
     (read_redirect_func m = Some PtraceRead_fn \<longrightarrow>
        fst (MemoryRemote_Read os m addr sz) = (m, 0, [])) \<and>
     ((\<forall>len iovs. (\<forall>(b, l)\<in>set iovs. unat b + unat l < 2 ^ 64) \<longrightarrow>
          sys_process_vm_readv os' pid len iovs = sys_process_vm_readv os pid len iovs) \<longrightarrow>
        ProcessVmRead os' pid addr sz = ProcessVmRead os pid addr sz) \<and>
     (read_redirect_func m \<noteq> Some PtraceRead_fn \<longrightarrow>
        fst (snd (fst (MemoryRemote_Read os m addr sz))) =
          fst (ProcessVmRead os (remote_pid m) addr sz)) \<and>
     (fst (ProcessVmRead os (sys_getpid os) addr sz) \<noteq> 0 \<longrightarrow>
        MemoryLocal_Read os addr sz = Some (ProcessVmRead os (sys_getpid os) addr sz)) \<and>
     MemoryBuffer_Read b addr sz =
       (if addr < buf_size b
        then (buf_size b - addr, take (unat (buf_size b - addr)) (drop (unat addr) (buf_raw b)))
        else (0, [])) \<and>
     MemoryFileAtOffset_Read f addr sz =
       (if addr < file_size f
        then (file_size f - addr, take (unat (file_size f - addr)) (drop (unat addr) (file_data f)))
        else (0, [])) \<and>
     MemoryRange_Read rd r addr sz =
       (if addr < range_offset r \<or> unat (range_offset r) + unat (range_length r) \<le> unat addr \<or>
           builtin_add_overflow (addr - range_offset r) (range_begin r)
        then (r, 0, [])
        else case rd (range_memory r) (addr - range_offset r + range_begin r)
                    (min sz (range_length r - (addr - range_offset r))) of
               (m', n, data) \<Rightarrow> (r\<lparr>range_memory := m'\<rparr>, n, data)) \<and>
     (range_offset r \<le> addr \<and> unat addr < unat (range_offset r) + unat (range_length r) \<longrightarrow>
        unat (min sz (range_length r - (addr - range_offset r))) =
          min (unat sz) (unat (range_offset r) + unat (range_length r) - unat addr)) \<and>
     MemoryRanges_Read rd maps addr sz =
       (case dropWhile (\<lambda>e. fst e \<le> addr) maps of
          [] \<Rightarrow> (maps, 0, [])
        | (k, r) # post \<Rightarrow>
            (case MemoryRange_Read rd r addr sz of
               (r', n, data) \<Rightarrow>
                 (takeWhile (\<lambda>e. fst e \<le> addr) maps @ (k, r') # post, n, data))) \<and>
     MemoryOffline_Read mo addr sz =
       (case offline_memory mo of
          None \<Rightarrow> (0, [])
        | Some w \<Rightarrow>
            if addr < range_offset w \<or>
               unat (range_offset w) + unat (range_length w) \<le> unat addr \<or>
               builtin_add_overflow (addr - range_offset w) (range_begin w)
            then (0, [])
            else MemoryFileAtOffset_Read (range_memory w) (addr - range_offset w + range_begin w)
                   (min sz (range_length w - (addr - range_offset w)))) \<and>
     MemoryOfflineBuffer_Read ob addr sz =
       (if addr < offbuf_start ob \<or> offbuf_end ob \<le> addr then (0, [])
        else (offbuf_end ob - addr,
              take (unat (offbuf_end ob - addr)) (drop (unat (addr - offbuf_start ob)) (offbuf_data ob)))) \<and>
     MemoryOfflineParts_Read memories addr sz =
       (case find (\<lambda>memory. fst (MemoryOffline_Read memory addr sz) \<noteq> 0) memories of
          None \<Rightarrow> (0, [])
        | Some memory \<Rightarrow> MemoryOffline_Read memory addr sz) \<and>
     (cache (drop_bit kCacheBits addr) = None \<and>
      ReadFully rd' impl (push_bit kCacheBits (drop_bit kCacheBits addr)) kCacheSize =
        (impl1, False, page) \<longrightarrow>
        InternalCachedRead rd' impl addr sz cache =
          (case rd' impl1 addr sz of (impl2, n, d) \<Rightarrow> (impl2, cache, n, d)))"
proof (intro impI conjI)
  assume ov: "2 ^ 64 \<le> unat addr + unat sz"
  then show words: "PtraceRead os pid addr sz = (0, [])" for os pid
    by (simp add: PtraceRead_def builtin_add_overflow_def)
  show "MemoryBuffer_Read b addr sz =
       (if addr < buf_size b
        then (buf_size b - addr, take (unat (buf_size b - addr)) (drop (unat addr) (buf_raw b)))
        else (0, []))"
  proof (cases "addr < buf_size b")
    case True
    with overflow_exceeds_rest [OF ov True] show ?thesis
      by (simp add: MemoryBuffer_Read_def Let_def not_le [symmetric])
  next
    case False
    then have "buf_size b \<le> addr" by simp
    then show ?thesis unfolding MemoryBuffer_Read_def if_not_P [OF False] by simp
  qed
  show "MemoryFileAtOffset_Read f addr sz =
       (if addr < file_size f
        then (file_size f - addr, take (unat (file_size f - addr)) (drop (unat addr) (file_data f)))
        else (0, []))"
  proof (cases "addr < file_size f")
    case True
    with overflow_exceeds_rest [OF ov True] show ?thesis
      by (simp add: MemoryFileAtOffset_Read_def Let_def not_le [symmetric])
  next
    case False
    then have "file_size f \<le> addr" by simp
    then show ?thesis unfolding MemoryFileAtOffset_Read_def if_not_P [OF False] by simp
  qed
  show "MemoryRange_Read rd r addr sz =
       (if addr < range_offset r \<or> unat (range_offset r) + unat (range_length r) \<le> unat addr \<or>
           builtin_add_overflow (addr - range_offset r) (range_begin r)
        then (r, 0, [])
        else case rd (range_memory r) (addr - range_offset r + range_begin r)
                    (min sz (range_length r - (addr - range_offset r))) of
               (m', n, data) \<Rightarrow> (r\<lparr>range_memory := m'\<rparr>, n, data))"
    by (rule MemoryRange_Read_cases)
  show "MemoryRanges_Read rd maps addr sz =
       (case dropWhile (\<lambda>e. fst e \<le> addr) maps of
          [] \<Rightarrow> (maps, 0, [])
        | (k, r) # post \<Rightarrow>
            (case MemoryRange_Read rd r addr sz of
               (r', n, data) \<Rightarrow>
                 (takeWhile (\<lambda>e. fst e \<le> addr) maps @ (k, r') # post, n, data)))"
    by (rule MemoryRanges_Read_dropWhile)
  show "MemoryOffline_Read mo addr sz =
       (case offline_memory mo of
          None \<Rightarrow> (0, [])
        | Some w \<Rightarrow>
            if addr < range_offset w \<or>
               unat (range_offset w) + unat (range_length w) \<le> unat addr \<or>
               builtin_add_overflow (addr - range_offset w) (range_begin w)
            then (0, [])
            else MemoryFileAtOffset_Read (range_memory w) (addr - range_offset w + range_begin w)
                   (min sz (range_length w - (addr - range_offset w))))"
    by (rule MemoryOffline_Read_cases)
  show "MemoryOfflineBuffer_Read ob addr sz =
       (if addr < offbuf_start ob \<or> offbuf_end ob \<le> addr then (0, [])
        else (offbuf_end ob - addr,
              take (unat (offbuf_end ob - addr)) (drop (unat (addr - offbuf_start ob)) (offbuf_data ob))))"
  proof (cases "addr < offbuf_start ob \<or> offbuf_end ob \<le> addr")
    case True
    then show ?thesis by (simp add: MemoryOfflineBuffer_Read_def)
  next
    case False
    then have "addr < offbuf_end ob" by (simp add: not_le)
    from overflow_exceeds_rest [OF ov this] False show ?thesis
      by (simp add: MemoryOfflineBuffer_Read_def Let_def min.commute)
  qed
  show "MemoryOfflineParts_Read memories addr sz =
       (case find (\<lambda>memory. fst (MemoryOffline_Read memory addr sz) \<noteq> 0) memories of
          None \<Rightarrow> (0, [])
        | Some memory \<Rightarrow> MemoryOffline_Read memory addr sz)"
    by (rule MemoryOfflineParts_Read_find)
  {
    assume "read_redirect_func m = Some PtraceRead_fn"
    then show "fst (MemoryRemote_Read os m addr sz) = (m, 0, [])"
      by (simp add: MemoryRemote_Read_words words)
  }
  {
    assume n: "read_redirect_func m \<noteq> Some PtraceRead_fn"
    show "fst (snd (fst (MemoryRemote_Read os m addr sz))) =
          fst (ProcessVmRead os (remote_pid m) addr sz)"
    proof (cases "read_redirect_func m")
      case None
      then show ?thesis by (simp add: MemoryRemote_Read_unrecorded words)
    next
      case (Some g)
      with n have "read_redirect_func m = Some ProcessVmRead_fn" by (cases g) simp_all
      then show ?thesis by (simp add: MemoryRemote_Read_bulk)
    qed
  }
  {
    assume nz: "fst (ProcessVmRead os (sys_getpid os) addr sz) \<noteq> 0"
    then show "MemoryLocal_Read os addr sz = Some (ProcessVmRead os (sys_getpid os) addr sz)"
      by (simp add: MemoryLocal_Read_def split_beta)
  }
next
  assume "\<forall>len iovs. (\<forall>(b, l)\<in>set iovs. unat b + unat l < 2 ^ 64) \<longrightarrow>
          sys_process_vm_readv os' pid len iovs = sys_process_vm_readv os pid len iovs"
  then have "sys_process_vm_readv os' pid len iovs = sys_process_vm_readv os pid len iovs"
    if "\<forall>(b, l)\<in>set iovs. \<not> builtin_add_overflow b l" for len iovs
    using that by (simp add: builtin_add_overflow_def not_le)
  then show "ProcessVmRead os' pid addr sz = ProcessVmRead os pid addr sz"
    by (rule ProcessVmRead_kernel)
next
  assume "range_offset r \<le> addr \<and> unat addr < unat (range_offset r) + unat (range_length r)"
  then have w: "range_offset r \<le> addr" "unat addr < unat (range_offset r) + unat (range_length r)"
    by simp_all
  show "unat (min sz (range_length r - (addr - range_offset r))) =
          min (unat sz) (unat (range_offset r) + unat (range_length r) - unat addr)"
    by (rule MemoryRange_Read_inside(2) [OF w])
next
  assume c: "cache (drop_bit kCacheBits addr) = None \<and>
      ReadFully rd' impl (push_bit kCacheBits (drop_bit kCacheBits addr)) kCacheSize =
        (impl1, False, page)"
  then have "cache_page rd' impl (drop_bit kCacheBits addr) cache = (impl1, cache, None)"
    unfolding cache_page_fails_iff by blast
  then show "InternalCachedRead rd' impl addr sz cache =
          (case rd' impl1 addr sz of (impl2, n, d) \<Rightarrow> (impl2, cache, n, d))"
    by (rule InternalCachedRead_first_fails)
qed

text \<open>
  The theorem at requests that reach past the end of the address space, on the example
  objects: the two transfer functions and the remote-process and local memories over
  them, a buffer, a mapped file, a range, a range set, the offline snapshot, an offline
  buffer, two snapshots of which the first is not initialised, and the cache over a
  source that cannot fill page 1.
\<close>

theorem Read_overflow_witness:
  "2 ^ 64 \<le> unat (18446744073709551608 :: u64) + unat (16 :: u64) \<and>
   PtraceRead ex_ptrace_os 7 18446744073709551608 16 = (0, []) \<and>
   fst (MemoryRemote_Read ex_ptrace_os (ex_remote\<lparr>read_redirect_func := Some PtraceRead_fn\<rparr>)
          18446744073709551608 16) =
     (ex_remote\<lparr>read_redirect_func := Some PtraceRead_fn\<rparr>, 0, []) \<and>
   2 ^ 64 \<le> unat (18446744073709285376 :: u64) + unat (270336 :: u64) \<and>
   ProcessVmRead ex_wrapping_os 7 18446744073709285376 270336 =
     ProcessVmRead ex_partial_os 7 18446744073709285376 270336 \<and>
   ProcessVmRead ex_partial_os 7 18446744073709285376 270336 = (2, [5, 5]) \<and>
   fst (snd (fst (MemoryRemote_Read ex_partial_os ex_remote 18446744073709285376 270336))) = 2 \<and>
   MemoryLocal_Read ex_partial_os 18446744073709285376 270336 = Some (2, [5, 5]) \<and>
   2 ^ 64 \<le> unat (2 :: u64) + unat (18446744073709551615 :: u64) \<and>
   MemoryBuffer_Read ex_string_buffer 2 18446744073709551615 = (2, [99, 0]) \<and>
   MemoryFileAtOffset_Read ex_file 5 18446744073709551615 = (0, []) \<and>
   MemoryRange_Read MemoryBuffer_reader ex_window 101 18446744073709551615 =
     (ex_window, 3, [1, 2, 3]) \<and>
   unat (min 18446744073709551615 (range_length ex_window - (101 - range_offset ex_window))) = 3 \<and>
   MemoryRanges_Read MemoryBuffer_reader ex_two_ranges 150 18446744073709551615 =
     (ex_two_ranges, 50, replicate 50 2) \<and>
   MemoryOffline_Read ex_offline (4096 + 95) 18446744073709551615 = (5, replicate 5 2) \<and>
   MemoryOfflineBuffer_Read ex_offline_buffer 18 18446744073709551615 = (2, [3, 4]) \<and>
   MemoryOfflineParts_Read [\<lparr>offline_memory = None\<rparr>, ex_offline] (4096 + 95)
       18446744073709551615 = (5, replicate 5 2) \<and>
   InternalCachedRead (MemoryRanges_Read MemoryBuffer_reader) ex_paged_ranges 4098
       18446744073709551615 Map.empty =
     (ex_paged_ranges, Map.empty, 3, replicate 3 2)"
proof -
  let ?words = "ex_remote\<lparr>read_redirect_func := Some PtraceRead_fn\<rparr>"
  let ?max = "18446744073709551615 :: u64"
  let ?far = "18446744073709285376 :: u64"
  let ?fsz = "270336 :: u64"
  have o1: "2 ^ 64 \<le> unat (18446744073709551608 :: u64) + unat (16 :: u64)" by simp
  have o2: "2 ^ 64 \<le> unat (2 :: u64) + unat ?max" by simp
  have o3: "2 ^ 64 \<le> unat (5 :: u64) + unat ?max" by simp
  have o4: "2 ^ 64 \<le> unat (101 :: u64) + unat ?max" by simp
  have o5: "2 ^ 64 \<le> unat (150 :: u64) + unat ?max" by simp
  have o6: "2 ^ 64 \<le> unat (4096 + 95 :: u64) + unat ?max" by simp
  have o7: "2 ^ 64 \<le> unat (4098 :: u64) + unat ?max" by simp
  have o8: "2 ^ 64 \<le> unat ?far + unat ?fsz" by simp
  have a: "PtraceRead ex_ptrace_os 7 18446744073709551608 16 = (0, [])"
    by (rule Read_overflow [THEN mp, OF o1, THEN conjunct1])
  have "read_redirect_func ?words = Some PtraceRead_fn" by simp
  then have b: "fst (MemoryRemote_Read ex_ptrace_os ?words 18446744073709551608 16) = (?words, 0, [])"
    by (rule Read_overflow [THEN mp, OF o1, THEN conjunct2, THEN conjunct1, THEN mp])
  have agree: "\<forall>len iovs. (\<forall>(b, l)\<in>set iovs. unat b + unat l < 2 ^ 64) \<longrightarrow>
      sys_process_vm_readv ex_wrapping_os 7 len iovs = sys_process_vm_readv ex_partial_os 7 len iovs"
    by (simp add: ex_wrapping_os_def ex_partial_os_def)
  have c: "ProcessVmRead ex_wrapping_os 7 ?far ?fsz = ProcessVmRead ex_partial_os 7 ?far ?fsz"
    using agree
    by (rule Read_overflow [THEN mp, OF o8, THEN conjunct2, THEN conjunct2, THEN conjunct1, THEN mp])
  note far = ex_partial_os_far
  have "read_redirect_func ex_remote \<noteq> Some PtraceRead_fn" by (simp add: ex_remote_def)
  then have "fst (snd (fst (MemoryRemote_Read ex_partial_os ex_remote ?far ?fsz))) =
      fst (ProcessVmRead ex_partial_os (remote_pid ex_remote) ?far ?fsz)"
    by (rule Read_overflow [THEN mp, OF o8, THEN conjunct2, THEN conjunct2, THEN conjunct2,
          THEN conjunct1, THEN mp])
  then have d: "fst (snd (fst (MemoryRemote_Read ex_partial_os ex_remote ?far ?fsz))) = 2"
    by (simp add: far)
  have "fst (ProcessVmRead ex_partial_os (sys_getpid ex_partial_os) ?far ?fsz) \<noteq> 0"
    by (simp add: far)
  then have "MemoryLocal_Read ex_partial_os ?far ?fsz =
      Some (ProcessVmRead ex_partial_os (sys_getpid ex_partial_os) ?far ?fsz)"
    by (rule Read_overflow [THEN mp, OF o8, THEN conjunct2, THEN conjunct2, THEN conjunct2,
          THEN conjunct2, THEN conjunct1, THEN mp])
  then have e: "MemoryLocal_Read ex_partial_os ?far ?fsz = Some (2, [5, 5])"
    by (simp add: far)
  note rest2 = Read_overflow [where addr = 2 and sz = ?max, THEN mp, OF o2, THEN conjunct2,
      THEN conjunct2, THEN conjunct2, THEN conjunct2, THEN conjunct2]
  note rest3 = Read_overflow [where addr = 5 and sz = ?max, THEN mp, OF o3, THEN conjunct2,
      THEN conjunct2, THEN conjunct2, THEN conjunct2, THEN conjunct2]
  note rest4 = Read_overflow [where addr = 101 and sz = ?max, THEN mp, OF o4, THEN conjunct2,
      THEN conjunct2, THEN conjunct2, THEN conjunct2, THEN conjunct2]
  note rest5 = Read_overflow [where addr = 150 and sz = ?max, THEN mp, OF o5, THEN conjunct2,
      THEN conjunct2, THEN conjunct2, THEN conjunct2, THEN conjunct2]
  note rest6 = Read_overflow [where addr = "4096 + 95" and sz = ?max, THEN mp, OF o6, THEN conjunct2,
      THEN conjunct2, THEN conjunct2, THEN conjunct2, THEN conjunct2]
  note rest7 = Read_overflow [where addr = 4098 and sz = ?max, THEN mp, OF o7, THEN conjunct2,
      THEN conjunct2, THEN conjunct2, THEN conjunct2, THEN conjunct2]
  have f: "MemoryBuffer_Read ex_string_buffer 2 ?max = (2, [99, 0])"
    using rest2 [THEN conjunct1, of ex_string_buffer] by (simp add: ex_string_buffer_def)
  have g: "MemoryFileAtOffset_Read ex_file 5 ?max = (0, [])"
    using rest3 [THEN conjunct2, THEN conjunct1, of ex_file] by (simp add: ex_file_def)
  have h: "MemoryRange_Read MemoryBuffer_reader ex_window 101 ?max = (ex_window, 3, [1, 2, 3])"
    using rest4 [THEN conjunct2, THEN conjunct2, THEN conjunct1, of MemoryBuffer_reader ex_window]
    by (simp add: ex_window_def ex_split_buffer_def builtin_add_overflow_def
        MemoryBuffer_reader_def MemoryBuffer_Read_def)
  have w: "range_offset ex_window \<le> 101 \<and>
           unat (101 :: u64) < unat (range_offset ex_window) + unat (range_length ex_window)"
    by (simp add: ex_window_def)
  have "unat (min ?max (range_length ex_window - (101 - range_offset ex_window))) =
        min (unat ?max) (unat (range_offset ex_window) + unat (range_length ex_window) - unat (101 :: u64))"
    using w by (rule rest4 [THEN conjunct2, THEN conjunct2, THEN conjunct2, THEN conjunct1, THEN mp])
  then have i: "unat (min ?max (range_length ex_window - (101 - range_offset ex_window))) = 3"
    by (simp add: ex_window_def)
  have j: "MemoryRanges_Read MemoryBuffer_reader ex_two_ranges 150 ?max =
      (ex_two_ranges, 50, replicate 50 2)"
    using rest5 [THEN conjunct2, THEN conjunct2, THEN conjunct2, THEN conjunct2, THEN conjunct1,
        of MemoryBuffer_reader ex_two_ranges]
    by (simp add: ex_two_ranges_def ex_low_def ex_high_def MemoryRanges_Insert_def
        builtin_add_overflow_def MemoryRange_Read_def MemoryBuffer_reader_def MemoryBuffer_Read_def)
  let ?header = "[0, 16, 0, 0, 0, 0, 0, 0] :: byte list"
  let ?content = "replicate 50 1 @ replicate 50 2 :: byte list"
  have files: "fs_files ex_os ''snapshot'' = Some ex_snapshot" by (simp add: ex_os_def)
  have len: "length ex_snapshot < 2 ^ 64" by (simp add: ex_snapshot_def)
  have split: "drop (unat (0 :: u64)) ex_snapshot = ?header @ ?content"
    by (simp add: ex_snapshot_def)
  have hdr: "length ?header = 8" by simp
  have "snd (MemoryOffline_Init ex_os \<lparr>offline_memory = None\<rparr> ''snapshot'' 0)"
    by (simp add: MemoryOffline_Init_def MemoryFileAtOffset_Init_def MemoryFileAtOffset_Clear_def
        ex_os_def ex_snapshot_def getpagesize_def Init_default_size_def UINT64_MAX_def
        builtin_add_overflow_def builtin_sub_overflow_def ReadFully_def
        MemoryFileAtOffset_reader_def MemoryFileAtOffset_Read_def Let_def)
  then have init: "MemoryOffline_Init ex_os \<lparr>offline_memory = None\<rparr> ''snapshot'' 0 =
                   (ex_offline, True)"
    unfolding ex_offline_def by (simp add: prod_eq_iff)
  have S: "load_u64 ?header = 4096" by (simp add: load_u64_def)
  from MemoryOffline_Init_shape [OF files len split hdr init] obtain mf where
    om: "offline_memory ex_offline = Some \<lparr>range_memory = mf, range_begin = 8,
            range_length = of_nat (length ?content), range_offset = load_u64 ?header\<rparr>"
    and dat: "file_data mf = ?header @ ?content"
    and usz: "unat (file_size mf) = 8 + length ?content" by blast
  have fr: "MemoryFileAtOffset_Read mf 103 5 = (5, take 5 (drop 95 ?content))"
    by (rule MemoryFileAtOffset_Read_suffix [OF dat]) (simp_all add: usz)
  have k: "MemoryOffline_Read ex_offline (4096 + 95) ?max = (5, replicate 5 2)"
    using rest6 [THEN conjunct2, THEN conjunct2, THEN conjunct2, THEN conjunct2, THEN conjunct2,
        THEN conjunct1, of ex_offline]
    by (simp add: om S builtin_add_overflow_def fr)
  have o9: "2 ^ 64 \<le> unat (18 :: u64) + unat ?max" by simp
  note rest9 = Read_overflow [where addr = 18 and sz = ?max, THEN mp, OF o9, THEN conjunct2,
      THEN conjunct2, THEN conjunct2, THEN conjunct2, THEN conjunct2]
  have ob: "MemoryOfflineBuffer_Read ex_offline_buffer 18 ?max = (2, [3, 4])"
    using rest9 [THEN conjunct2, THEN conjunct2, THEN conjunct2, THEN conjunct2, THEN conjunct2,
        THEN conjunct2, THEN conjunct1, of ex_offline_buffer]
    by (simp add: ex_offline_buffer_def)
  have none: "MemoryOffline_Read \<lparr>offline_memory = None\<rparr> 4191 ?max = (0, [])"
    by (simp add: MemoryOffline_Read_def)
  have k': "MemoryOffline_Read ex_offline 4191 ?max = (5, replicate 5 2)" using k by simp
  have parts: "MemoryOfflineParts_Read [\<lparr>offline_memory = None\<rparr>, ex_offline] (4096 + 95) ?max =
      (5, replicate 5 2)"
    using rest6 [THEN conjunct2, THEN conjunct2, THEN conjunct2, THEN conjunct2, THEN conjunct2,
        THEN conjunct2, THEN conjunct2, THEN conjunct1,
        of "[\<lparr>offline_memory = None\<rparr>, ex_offline]"]
    by (simp add: none k')
  have fails: "Map.empty (drop_bit kCacheBits (4098 :: u64)) = None \<and>
      ReadFully (MemoryRanges_Read MemoryBuffer_reader) ex_paged_ranges
          (push_bit kCacheBits (drop_bit kCacheBits (4098 :: u64))) kCacheSize =
        (ex_paged_ranges, False, replicate 5 2)"
    by (simp add: ReadFully_def ex_cache_constants ex_paged_ranges_reads)
  have direct: "MemoryRanges_Read MemoryBuffer_reader ex_paged_ranges 4098 ?max =
      (ex_paged_ranges, 3, replicate 3 2)"
    by (simp add: ex_paged_ranges_def ex_page_buffer_def ex_tail_buffer_def
        MemoryRange_Read_def builtin_add_overflow_def MemoryBuffer_reader_def
        MemoryBuffer_Read_def)
  have "InternalCachedRead (MemoryRanges_Read MemoryBuffer_reader) ex_paged_ranges 4098 ?max Map.empty =
      (case MemoryRanges_Read MemoryBuffer_reader ex_paged_ranges 4098 ?max of
         (impl2, n, d) \<Rightarrow> (impl2, Map.empty, n, d))"
    using fails
    by (rule rest7 [THEN conjunct2, THEN conjunct2, THEN conjunct2, THEN conjunct2, THEN conjunct2,
          THEN conjunct2, THEN conjunct2, THEN conjunct2, THEN mp])
  then have l: "InternalCachedRead (MemoryRanges_Read MemoryBuffer_reader) ex_paged_ranges 4098
       ?max Map.empty = (ex_paged_ranges, Map.empty, 3, replicate 3 2)"
    by (simp add: direct)
  from o1 a b o8 c far d e o2 f g h i j k ob parts l show ?thesis by simp
qed

text \<open>
  The claim C2 as stated makes every such read return 0. A read of \<open>2^64 - 1\<close> bytes at
  address 2 of the four-byte buffer returns the two bytes that are there; and the bulk
  path, asked for 66 pages from 65 pages before the end of the address space, returns
  the two bytes that the first batch of descriptors transferred.
\<close>

theorem Read_overflow_counterexample:
  "2 ^ 64 \<le> unat (2 :: u64) + unat (18446744073709551615 :: u64) \<and>
   MemoryBuffer_Read ex_string_buffer 2 18446744073709551615 = (2, [99, 0]) \<and>
   2 ^ 64 \<le> unat (18446744073709285376 :: u64) + unat (270336 :: u64) \<and>
   ProcessVmRead ex_partial_os 7 18446744073709285376 270336 = (2, [5, 5])"
  by (simp add: MemoryBuffer_Read_def ex_string_buffer_def Let_def ex_partial_os_far)

section \<open>Two reads that wrap around the end of the address space\<close>

text \<open>
  The statement before leaves out two paths, on which the code does form an address past
  \<open>2^64 - 1\<close>. When the bulk path returns zero bytes, \<^verbatim>\<open>MemoryLocal::Read\<close> copies \<^verbatim>\<open>size\<close>
  bytes from \<^verbatim>\<open>addr\<close> with no test of \<^verbatim>\<open>addr + size\<close>: a read of four bytes at \<open>2^64 - 2\<close>
  returns the two bytes at the top of the address space and then the two at address 0.
  \<^verbatim>\<open>InternalCachedRead\<close> computes the page behind the page of \<^verbatim>\<open>addr\<close> as \<^verbatim>\<open>addr_page + 1\<close>
  and its base as \<^verbatim>\<open>(addr_page + 1) << kCacheBits\<close>, which is 0 for the last page: a read
  of eight bytes at \<open>2^64 - 4\<close> returns four bytes of the last page and four bytes of page 0.
\<close>

lemma MemoryLocal_Read_wraps:
  "2 ^ 64 \<le> unat (18446744073709551614 :: u64) + unat (4 :: u64) \<and>
   ProcessVmRead ex_flat_os (sys_getpid ex_flat_os) 18446744073709551614 4 = (0, []) \<and>
   MemoryLocal_Read ex_flat_os 18446744073709551614 4 = Some (4, [254, 255, 0, 1])"
proof -
  have b: "ProcessVmRead ex_flat_os (sys_getpid ex_flat_os) 18446744073709551614 4 = (0, [])"
    by (rule ProcessVmRead_syscall_fails) (simp add: ex_flat_os_def)
  have m: "memcpy_from ex_flat_os 18446744073709551614 4 = Some [254, 255, 0, 1]"
    by (simp add: memcpy_from_def ex_flat_os_def upt_conv_Cons)
  show ?thesis by (simp add: MemoryLocal_Read_def b m)
qed

lemma ex_wrap_ranges_list:
  "ex_wrap_ranges =
     [(4096, \<lparr>range_memory = ex_zero_page_buffer, range_begin = 0, range_length = 4096,
              range_offset = 0\<rparr>),
      (UINT64_MAX, \<lparr>range_memory = ex_page_buffer, range_begin = 0, range_length = 4096,
            range_offset = 18446744073709547520\<rparr>)]"
  by (simp add: ex_wrap_ranges_def MemoryRanges_Insert_def builtin_add_overflow_def UINT64_MAX_def)

lemma ex_wrap_ranges_reads:
  "MemoryRanges_Read MemoryBuffer_reader ex_wrap_ranges 18446744073709547520 4096 =
     (ex_wrap_ranges, 4096, replicate 4096 1)"
  "MemoryRanges_Read MemoryBuffer_reader ex_wrap_ranges 0 4096 =
     (ex_wrap_ranges, 4096, replicate 4096 2)"
  by (simp_all add: ex_wrap_ranges_list ex_page_buffer_def ex_zero_page_buffer_def UINT64_MAX_def
      MemoryRange_Read_def builtin_add_overflow_def MemoryBuffer_reader_def
      MemoryBuffer_Read_def)

lemma ex_wrap_constants:
  "drop_bit kCacheBits (18446744073709551612 :: u64) = 4503599627370495"
  "push_bit kCacheBits (4503599627370495 :: u64) = 18446744073709547520"
  "push_bit kCacheBits (4503599627370496 :: u64) = 0"
  "(18446744073709551612 :: u64) AND kCacheMask = 4092"
  by (simp_all add: kCacheSize_def kCacheBits_def kCacheMask_def drop_bit_eq_div push_bit_eq_mult
      flip: mask_eq_exp_minus_1 take_bit_eq_mask add: take_bit_eq_mod)

lemma InternalCachedRead_wraps:
  "2 ^ 64 \<le> unat (18446744073709551612 :: u64) + unat (8 :: u64) \<and>
   push_bit kCacheBits (drop_bit kCacheBits (18446744073709551612 :: u64) + 1) = 0 \<and>
   InternalCachedRead (MemoryRanges_Read MemoryBuffer_reader) ex_wrap_ranges
      18446744073709551612 8 Map.empty =
     (ex_wrap_ranges,
      [4503599627370495 \<mapsto> replicate 4096 1, 4503599627370496 \<mapsto> replicate 4096 2],
      8, replicate 4 1 @ replicate 4 2)"
  by (simp add: InternalCachedRead_def cache_page_def ReadFully_def ex_cache_constants
      ex_wrap_constants ex_wrap_ranges_reads filled_page_def new_page_def Let_def)

end
